theory Spec2Isabelle
  imports Main
begin

section \<open>Bytes, C strings and the libc functions the server calls\<close>

text \<open>
  The server works on \<^verbatim>\<open>char\<close> arrays. A region of memory is a list of bytes; what a
  libc string function sees of it is the part before the first NUL byte (\<open>c_str\<close>).
  Every libc function below takes the memory behind its pointer argument and applies
  \<open>c_str\<close> itself, as the C function stops at the first NUL. A pointer \<^verbatim>\<open>p + k\<close> is
  \<open>drop k\<close> of the memory behind \<^verbatim>\<open>p\<close>; a returned pointer is the offset from the
  argument, \<open>None\<close> for \<^verbatim>\<open>NULL\<close>.
\<close>

definition NUL :: char where
  "NUL = CHR 0x00"

definition CRLF :: string where
  "CRLF = [CHR 0x0D, CHR 0x0A]"

definition CRLFCRLF :: string where
  "CRLFCRLF = [CHR 0x0D, CHR 0x0A, CHR 0x0D, CHR 0x0A]"

definition c_str :: "string \<Rightarrow> string" where
  "c_str mem = takeWhile (\<lambda>c. c \<noteq> NUL) mem"

fun starts_with :: "string \<Rightarrow> string \<Rightarrow> bool" where
  "starts_with s [] = True"
| "starts_with [] (d # ds) = False"
| "starts_with (c # cs) (d # ds) = (c = d \<and> starts_with cs ds)"

text \<open>Offset of the first occurrence of \<open>needle\<close> in a byte list.\<close>

fun find_sub :: "string \<Rightarrow> string \<Rightarrow> nat option" where
  "find_sub [] needle = (if needle = [] then Some 0 else None)"
| "find_sub (c # cs) needle =
     (if starts_with (c # cs) needle then Some 0 else map_option Suc (find_sub cs needle))"

definition strstr :: "string \<Rightarrow> string \<Rightarrow> nat option" where
  "strstr haystack needle = find_sub (c_str haystack) needle"

text \<open>\<^verbatim>\<open>tolower\<close> in the C locale (the program never calls \<^verbatim>\<open>setlocale\<close>).\<close>

definition tolower :: "char \<Rightarrow> char" where
  "tolower c =
     (case map_of (zip ''ABCDEFGHIJKLMNOPQRSTUVWXYZ'' ''abcdefghijklmnopqrstuvwxyz'') c of
        Some l \<Rightarrow> l
      | None \<Rightarrow> c)"

definition strcasestr :: "string \<Rightarrow> string \<Rightarrow> nat option" where
  "strcasestr haystack needle = find_sub (map tolower (c_str haystack)) (map tolower needle)"

text \<open>
  The comparisons are only ever tested against zero, so each is modelled as the
  truth value of \<^verbatim>\<open>cmp(a, b) == 0\<close>.
\<close>

definition strcasecmp_eq :: "string \<Rightarrow> string \<Rightarrow> bool" where
  "strcasecmp_eq a b = (map tolower (c_str a) = map tolower (c_str b))"

definition strcmp_eq :: "string \<Rightarrow> string \<Rightarrow> bool" where
  "strcmp_eq a b = (c_str a = c_str b)"

definition strncmp_eq :: "string \<Rightarrow> string \<Rightarrow> nat \<Rightarrow> bool" where
  "strncmp_eq a b n = (take n (c_str a) = take n (c_str b))"

text \<open>\<^verbatim>\<open>isspace\<close> and \<^verbatim>\<open>isdigit\<close> in the C locale.\<close>

definition isspace :: "char \<Rightarrow> bool" where
  "isspace c = (c \<in> set [CHR 0x20, CHR 0x09, CHR 0x0A, CHR 0x0B, CHR 0x0C, CHR 0x0D])"

definition isdigit :: "char \<Rightarrow> bool" where
  "isdigit c = (c \<in> set ''0123456789'')"

definition digit_val :: "char \<Rightarrow> int" where
  "digit_val c =
     (case map_of (zip ''0123456789'' [0, 1, 2, 3, 4, 5, 6, 7, 8, 9]) c of
        Some v \<Rightarrow> v
      | None \<Rightarrow> 0)"

definition decimal :: "string \<Rightarrow> int" where
  "decimal ds = foldl (\<lambda>acc c. 10 * acc + digit_val c) 0 ds"

text \<open>
  One \<^verbatim>\<open>%Ns\<close> conversion of \<^verbatim>\<open>sscanf\<close>: skip white space, then take at most \<open>w\<close>
  bytes that are not white space. No byte taken is an input failure (\<open>None\<close>);
  otherwise the token and the unread rest. The argument is the text already cut at
  the NUL.
\<close>

definition scan_s :: "nat \<Rightarrow> string \<Rightarrow> (string \<times> string) option" where
  "scan_s w s =
     (let s' = dropWhile isspace s;
          tok = take w (takeWhile (\<lambda>c. \<not> isspace c) s')
      in if tok = [] then None else Some (tok, drop (length tok) s'))"

text \<open>
  \<^verbatim>\<open>sscanf(p, "%zd", &length)\<close>: skip white space, an optional sign, then decimal
  digits; without a digit nothing is converted (\<open>None\<close>, the call does not return 1).
  The value is an unbounded integer here. For a digit string beyond the range of
  \<^verbatim>\<open>ssize_t\<close> glibc stores the nearest bound, which has the same sign and is at least
  \<^verbatim>\<open>BUFFER_SIZE\<close> in absolute value, so every comparison the server makes on the
  value comes out the same.
\<close>

definition scan_zd :: "string \<Rightarrow> int option" where
  "scan_zd mem =
     (let s = dropWhile isspace (c_str mem);
          neg = (s \<noteq> [] \<and> hd s = CHR ''-'');
          s' = (if s \<noteq> [] \<and> (hd s = CHR ''-'' \<or> hd s = CHR ''+'') then tl s else s);
          ds = takeWhile isdigit s'
      in if ds = [] then None else Some (if neg then - decimal ds else decimal ds))"

section \<open>Configuration and data\<close>

definition BUFFER_SIZE :: nat where
  "BUFFER_SIZE = 8192"

definition DYNAMIC_RESOURCES_COUNT :: nat where
  "DYNAMIC_RESOURCES_COUNT = 100"

definition MAX_HEADERS :: int where
  "MAX_HEADERS = 40"

definition MAX_HEADER_LENGTH :: nat where
  "MAX_HEADER_LENGTH = 256"

record StaticResource =
  s_path :: string
  s_content :: string
  s_content_length :: nat

text \<open>
  A slot of the dynamic store. \<open>content\<close> holds the bytes that \<^verbatim>\<open>memcpy\<close> wrote at the
  front of the slot's array; the rest of the array is zero after the \<^verbatim>\<open>memset\<close> and
  is never read, since every read takes \<open>content_length\<close> bytes.
\<close>

record DynamicResource =
  path :: string
  content :: string
  in_use :: bool
  content_length :: nat

definition static_resources :: "StaticResource list" where
  "static_resources =
     [\<lparr>s_path = ''/static/foo'', s_content = ''Foo'', s_content_length = 3\<rparr>,
      \<lparr>s_path = ''/static/bar'', s_content = ''Bar'', s_content_length = 3\<rparr>,
      \<lparr>s_path = ''/static/baz'', s_content = ''Baz'', s_content_length = 3\<rparr>]"

definition empty_slot :: DynamicResource where
  "empty_slot = \<lparr>path = [], content = [], in_use = False, content_length = 0\<rparr>"

definition dynamic_resources :: "DynamicResource list" where
  "dynamic_resources = replicate DYNAMIC_RESOURCES_COUNT empty_slot"

section \<open>Header checks\<close>

function count_loop :: "string \<Rightarrow> nat \<Rightarrow> nat \<Rightarrow> nat \<Rightarrow> nat" where
  "count_loop request end_off ptr count =
     (if ptr < end_off then
        (case strstr (drop ptr request) CRLF of
           None \<Rightarrow> count
         | Some k \<Rightarrow> count_loop request end_off (ptr + k + 2) (count + 1))
      else count)"
  by pat_completeness auto
termination
  by (relation "measure (\<lambda>(request, end_off, ptr, count). end_off - ptr)") auto

definition count_headers :: "string \<Rightarrow> int" where
  "count_headers request =
     (case strstr request CRLFCRLF of
        None \<Rightarrow> 0
      | Some end_off \<Rightarrow> int (count_loop request end_off 0 0) - 1)"

function validate_loop :: "string \<Rightarrow> nat \<Rightarrow> nat \<Rightarrow> bool" where
  "validate_loop request header_end line =
     (if line < header_end then
        (case strstr (drop line request) CRLF of
           None \<Rightarrow> False
         | Some k \<Rightarrow>
             if k > MAX_HEADER_LENGTH then False
             else validate_loop request header_end (line + k + 2))
      else True)"
  by pat_completeness auto
termination
  by (relation "measure (\<lambda>(request, header_end, line). header_end - line)") auto

definition validate_headers :: "string \<Rightarrow> bool" where
  "validate_headers request =
     (case strstr request CRLF of
        None \<Rightarrow> False
      | Some header_start \<Rightarrow>
          (case strstr request CRLFCRLF of
             None \<Rightarrow> False
           | Some header_end \<Rightarrow> validate_loop request header_end (header_start + 2)))"

definition get_content_length :: "string \<Rightarrow> int" where
  "get_content_length request =
     (case strcasestr request ''Content-Length:'' of
        None \<Rightarrow> - 1
      | Some cl_header \<Rightarrow>
          (case scan_zd (drop (cl_header + 15) request) of
             None \<Rightarrow> - 1
           | Some len \<Rightarrow> len))"

section \<open>Responses\<close>

text \<open>
  What \<^verbatim>\<open>send_response\<close> puts on the socket: the header built by \<^verbatim>\<open>snprintf\<close> from the
  status and the \<^verbatim>\<open>content_length\<close> argument, then \<^verbatim>\<open>content_length\<close> bytes read from
  the \<^verbatim>\<open>body\<close> pointer when it is not \<^verbatim>\<open>NULL\<close> and the length is positive. \<open>body\<close> is
  the memory behind the pointer. \<^verbatim>\<open>send_all\<close> is the external transmit primitive and
  is taken to deliver every byte.
\<close>

record response =
  status_code :: int
  status_text :: string
  content_length_header :: nat
  body_sent :: string

definition send_response :: "int \<Rightarrow> string \<Rightarrow> string option \<Rightarrow> nat \<Rightarrow> response" where
  "send_response code text body len =
     \<lparr>status_code = code, status_text = text, content_length_header = len,
      body_sent = (case body of
                     None \<Rightarrow> []
                   | Some b \<Rightarrow> if len > 0 then take len b else [])\<rparr>"

section \<open>Request processing\<close>

text \<open>\<^verbatim>\<open>sscanf(request, "%15s %255s %15s", method, path, version)\<close>; \<open>None\<close> when fewer
  than three conversions succeed.\<close>

definition scan_request_line :: "string \<Rightarrow> (string \<times> string \<times> string) option" where
  "scan_request_line request =
     (case scan_s 15 (c_str request) of
        None \<Rightarrow> None
      | Some (method, r1) \<Rightarrow>
          (case scan_s 255 r1 of
             None \<Rightarrow> None
           | Some (pth, r2) \<Rightarrow>
               (case scan_s 15 r2 of
                  None \<Rightarrow> None
                | Some (version, r3) \<Rightarrow> Some (method, pth, version))))"

text \<open>The scan over the slots: the index of the first slot in use with the path, where
  the loop breaks, and the first free slot seen before that.\<close>

fun scan_slots ::
  "DynamicResource list \<Rightarrow> string \<Rightarrow> nat \<Rightarrow> nat option \<Rightarrow> nat option \<times> nat option" where
  "scan_slots [] pth i available_slot = (None, available_slot)"
| "scan_slots (r # rs) pth i available_slot =
     (if in_use r then
        (if strcmp_eq (path r) pth then (Some i, available_slot)
         else scan_slots rs pth (Suc i) available_slot)
      else scan_slots rs pth (Suc i)
             (if available_slot = None then Some i else available_slot))"

fun find_static :: "StaticResource list \<Rightarrow> string \<Rightarrow> StaticResource option" where
  "find_static [] pth = None"
| "find_static (r # rs) pth = (if strcmp_eq pth (s_path r) then Some r else find_static rs pth)"

text \<open>
  \<^verbatim>\<open>process_request\<close> is written in three parts: \<open>handle_put\<close> is its PUT branch,
  \<open>handle_dynamic\<close> the branch for paths that start with \<^verbatim>\<open>/dynamic/\<close>, after the
  slot scan. \<open>request\<close> is the memory behind the pointer: the string functions read it
  up to its first NUL, \<^verbatim>\<open>memcpy\<close> takes \<^verbatim>\<open>content_length\<close> bytes of it from
  \<^verbatim>\<open>headers_end + 4\<close> whatever they are. A copy that would run past the end of the
  list is cut there; lemma \<open>frame_body_in_bounds\<close> shows that no request handed over by
  the connection loop asks for one.
\<close>

definition handle_put ::
  "string \<Rightarrow> string \<Rightarrow> nat option \<Rightarrow> nat option \<Rightarrow> DynamicResource list
     \<Rightarrow> response \<times> DynamicResource list" where
  "handle_put request pth resource_index available_slot store =
     (case strstr request CRLFCRLF of
        None \<Rightarrow> (send_response 400 ''Bad Request'' (Some ''Missing headers'') 14, store)
      | Some headers_end \<Rightarrow>
          (let body = drop (headers_end + 4) request;
               content_length = get_content_length request
           in if content_length < 0 \<or> content_length \<ge> int BUFFER_SIZE then
                (send_response 411 ''Length Required'' (Some ''Invalid Content-Length'') 20, store)
              else
                (case resource_index of
                   Some i \<Rightarrow>
                     (send_response 204 ''No Content'' None 0,
                      store[i := (store ! i)\<lparr>content := take (nat content_length) body,
                                             content_length := nat content_length\<rparr>])
                 | None \<Rightarrow>
                     (case available_slot of
                        Some j \<Rightarrow>
                          (send_response 201 ''Created'' None 0,
                           store[j := (store ! j)\<lparr>in_use := True,
                                                  path := take 255 (c_str pth),
                                                  content := take (nat content_length) body,
                                                  content_length := nat content_length\<rparr>])
                      | None \<Rightarrow>
                          (send_response 507 ''Insufficient Storage'' None 0, store)))))"

definition handle_dynamic ::
  "string \<Rightarrow> string \<Rightarrow> string \<Rightarrow> DynamicResource list \<Rightarrow> response \<times> DynamicResource list" where
  "handle_dynamic request method pth store =
     (case scan_slots store pth 0 None of
        (resource_index, available_slot) \<Rightarrow>
          if strcasecmp_eq method ''PUT'' then
            handle_put request pth resource_index available_slot store
          else if strcasecmp_eq method ''GET'' then
            (case resource_index of
               Some i \<Rightarrow>
                 (send_response 200 ''OK'' (Some (content (store ! i)))
                    (content_length (store ! i)), store)
             | None \<Rightarrow> (send_response 404 ''Not Found'' None 0, store))
          else if strcasecmp_eq method ''DELETE'' then
            (case resource_index of
               Some i \<Rightarrow>
                 (send_response 204 ''No Content'' None 0,
                  store[i := (store ! i)\<lparr>in_use := False, content := [],
                                         content_length := 0\<rparr>])
             | None \<Rightarrow> (send_response 404 ''Not Found'' None 0, store))
          else (send_response 405 ''Method Not Allowed'' None 0, store))"

definition process_request ::
  "string \<Rightarrow> DynamicResource list \<Rightarrow> response \<times> DynamicResource list" where
  "process_request request store =
     (case scan_request_line request of
        None \<Rightarrow>
          (send_response 400 ''Bad Request'' (Some ''Invalid Request Format'') 21, store)
      | Some (method, pth, version) \<Rightarrow>
          if count_headers request > MAX_HEADERS then
            (send_response 400 ''Bad Request'' (Some ''Too many headers'') 15, store)
          else if \<not> validate_headers request then
            (send_response 400 ''Bad Request'' (Some ''Invalid headers'') 14, store)
          else if strcasecmp_eq method ''HEAD'' then
            (send_response 501 ''Not Implemented'' None 0, store)
          else if strncmp_eq pth ''/static/'' 8 then
            (if \<not> strcasecmp_eq method ''GET'' then
               (send_response 405 ''Method Not Allowed'' None 0, store)
             else
               (case find_static static_resources pth of
                  Some r \<Rightarrow>
                    (send_response 200 ''OK'' (Some (s_content r)) (s_content_length r), store)
                | None \<Rightarrow> (send_response 404 ''Not Found'' None 0, store)))
          else if strncmp_eq pth ''/dynamic/'' 9 then
            handle_dynamic request method pth store
          else (send_response 404 ''Not Found'' None 0, store))"

section \<open>The connection loop\<close>

text \<open>
  \<open>buffer\<close> is the received data, \<^verbatim>\<open>buffer[0 .. total_bytes)\<close>, so \<open>length buffer\<close> is
  \<^verbatim>\<open>total_bytes\<close>. The array keeps a NUL at \<^verbatim>\<open>buffer[total_bytes]\<close>, which is where
  \<open>c_str\<close> stops on a list without one; the bytes of the array past it are never read.

  \<open>frame_request\<close> is the test at the head of the inner loop: the length of the
  request at the front of the buffer, or \<open>None\<close> where the loop breaks.
\<close>

definition frame_request :: "string \<Rightarrow> nat option" where
  "frame_request buffer =
     (case strstr buffer CRLFCRLF of
        None \<Rightarrow> None
      | Some headers_end \<Rightarrow>
          (let headers_length = headers_end + 4;
               content_length = get_content_length buffer;
               content_length = (if content_length < 0 then 0 else content_length);
               total_request_length = headers_length + nat content_length
           in if length buffer < total_request_length then None
              else Some total_request_length))"

text \<open>
  The inner loop. \<^verbatim>\<open>buffer[total_request_length] = '\0'\<close> is the list update (at
  \<open>total_bytes\<close> it rewrites the NUL that is already there, and the list update does
  nothing); \<^verbatim>\<open>process_request\<close> gets the buffer so changed; \<^verbatim>\<open>memmove\<close> keeps what
  follows the request. \<open>out\<close> collects each request as \<^verbatim>\<open>process_request\<close> sees it (a C
  string) with its response.
\<close>

type_synonym exchange = "string \<times> response"

function handle_buffer ::
  "string \<Rightarrow> DynamicResource list \<Rightarrow> exchange list
     \<Rightarrow> string \<times> DynamicResource list \<times> exchange list" where
  "handle_buffer buffer store out =
     (case frame_request buffer of
        None \<Rightarrow> (buffer, store, out)
      | Some total_request_length \<Rightarrow>
          handle_buffer
            (drop total_request_length (buffer[total_request_length := NUL]))
            (snd (process_request (buffer[total_request_length := NUL]) store))
            (out @ [(c_str (buffer[total_request_length := NUL]),
                     fst (process_request (buffer[total_request_length := NUL]) store))]))"
  by pat_completeness auto
termination
proof (relation "measure (\<lambda>(buffer, store, out). length buffer)")
  show "wf (measure (\<lambda>(buffer, store, out). length buffer))"
    by simp
next
  fix buffer :: string and store :: "DynamicResource list" and out :: "exchange list" and n
  assume "frame_request buffer = Some n"
  then have "4 \<le> n" and "n \<le> length buffer"
    by (auto simp: frame_request_def Let_def split: option.splits if_splits)
  then show "((drop n (buffer[n := NUL]),
               snd (process_request (buffer[n := NUL]) store),
               out @ [(c_str (buffer[n := NUL]),
                       fst (process_request (buffer[n := NUL]) store))]),
              buffer, store, out) \<in> measure (\<lambda>(buffer, store, out). length buffer)"
    by simp
qed

text \<open>
  The outer loop. The peer's segments arrive in order; \<^verbatim>\<open>recv\<close> returns at most the
  \<^verbatim>\<open>sizeof(buffer) - total_bytes - 1\<close> bytes asked for and leaves the rest of a segment
  for the next call. No segment left is the peer's close (\<^verbatim>\<open>recv\<close> returns 0), as is a
  call that asks for 0 bytes; \<open>RecvError\<close> is a negative return.
\<close>

datatype recv_event = Data string | RecvError

fun event_size :: "recv_event \<Rightarrow> nat" where
  "event_size (Data chunk) = Suc (length chunk)"
| "event_size RecvError = 1"

function handle_client_loop ::
  "recv_event list \<Rightarrow> string \<Rightarrow> DynamicResource list \<Rightarrow> exchange list
     \<Rightarrow> int \<times> DynamicResource list \<times> exchange list" where
  "handle_client_loop [] buffer store out = (0, store, out)"
| "handle_client_loop (RecvError # evs) buffer store out = (- 1, store, out)"
| "handle_client_loop (Data chunk # evs) buffer store out =
     (if take (BUFFER_SIZE - length buffer - 1) chunk = [] then (0, store, out)
      else
        handle_client_loop
          (if drop (BUFFER_SIZE - length buffer - 1) chunk = [] then evs
           else Data (drop (BUFFER_SIZE - length buffer - 1) chunk) # evs)
          (fst (handle_buffer (buffer @ take (BUFFER_SIZE - length buffer - 1) chunk) store out))
          (fst (snd (handle_buffer (buffer @ take (BUFFER_SIZE - length buffer - 1) chunk)
                       store out)))
          (snd (snd (handle_buffer (buffer @ take (BUFFER_SIZE - length buffer - 1) chunk)
                       store out))))"
  by pat_completeness auto
termination
  by (relation "measure (\<lambda>(evs, buffer, store, out). sum_list (map event_size evs))") auto

definition handle_client ::
  "recv_event list \<Rightarrow> DynamicResource list \<Rightarrow> int \<times> DynamicResource list \<times> exchange list" where
  "handle_client evs store = handle_client_loop evs [] store []"

text \<open>The store after a sequence of requests, each handed to \<^verbatim>\<open>process_request\<close>.\<close>

fun process_requests :: "string list \<Rightarrow> DynamicResource list \<Rightarrow> DynamicResource list" where
  "process_requests [] store = store"
| "process_requests (request # rest) store =
     process_requests rest (snd (process_request request store))"

section \<open>Predicates used in the statements\<close>

text \<open>
  A request that \<^verbatim>\<open>process_request\<close> lets through to the routing: the request line scans
  into three tokens, of which \<open>method\<close> and \<open>pth\<close> are the first two, and both header
  checks pass.
\<close>

definition routed :: "string \<Rightarrow> string \<Rightarrow> string \<Rightarrow> bool" where
  "routed request method pth =
     (map_option (\<lambda>(m, p, v). (m, p)) (scan_request_line request) = Some (method, pth)
      \<and> count_headers request \<le> MAX_HEADERS \<and> validate_headers request)"

text \<open>Every slot's \<open>content_length\<close> bytes are there to be read.\<close>

definition slots_readable :: "DynamicResource list \<Rightarrow> bool" where
  "slots_readable store = list_all (\<lambda>slot. content_length slot \<le> length (content slot)) store"

text \<open>An exchange whose response announces as many body bytes as it carries.\<close>

definition well_sized :: "exchange \<Rightarrow> bool" where
  "well_sized e = (content_length_header (snd e) = length (body_sent (snd e)))"

text \<open>A slot holds a path when it is in use and \<^verbatim>\<open>strcmp\<close> finds its path equal.\<close>

definition holds :: "DynamicResource \<Rightarrow> string \<Rightarrow> bool" where
  "holds slot pth = (in_use slot \<and> strcmp_eq (path slot) pth)"

text \<open>The bytes a PUT stores: \<^verbatim>\<open>content_length\<close> bytes from \<^verbatim>\<open>headers_end + 4\<close>.\<close>

definition put_body :: "string \<Rightarrow> string" where
  "put_body request =
     (case strstr request CRLFCRLF of
        None \<Rightarrow> []
      | Some headers_end \<Rightarrow>
          take (nat (get_content_length request)) (drop (headers_end + 4) request))"

definition request_path :: "string \<Rightarrow> string option" where
  "request_path request = map_option (\<lambda>(m, p, v). p) (scan_request_line request)"

text \<open>A request writes to a path when it names it and its method is PUT or DELETE.\<close>

definition writes_to :: "string \<Rightarrow> string \<Rightarrow> bool" where
  "writes_to request pth =
     (case scan_request_line request of
        None \<Rightarrow> False
      | Some (m, p, v) \<Rightarrow>
          p = pth \<and> (strcasecmp_eq m ''PUT'' \<or> strcasecmp_eq m ''DELETE''))"

text \<open>No two slots in use have the same path, as \<^verbatim>\<open>strcmp\<close> compares paths.\<close>

definition unique_paths :: "DynamicResource list \<Rightarrow> bool" where
  "unique_paths store = distinct (map (\<lambda>slot. c_str (path slot)) (filter in_use store))"

text \<open>The body length the connection loop frames with: the value of
  \<^verbatim>\<open>get_content_length\<close>, and 0 when that is negative.\<close>

definition body_length :: "string \<Rightarrow> nat" where
  "body_length buffer =
     (if get_content_length buffer < 0 then 0 else nat (get_content_length buffer))"

text \<open>The first header terminator of a text starts at offset \<open>off\<close>.\<close>

definition terminator_at :: "string \<Rightarrow> nat \<Rightarrow> bool" where
  "terminator_at text off =
     (take 4 (drop off text) = CRLFCRLF \<and> (\<forall>k<off. take 4 (drop k text) \<noteq> CRLFCRLF))"

text \<open>
  The Content-Length header of a request as the protocol has it, for a text whose
  first header terminator starts at \<open>off\<close>: a header line is a name at the start of
  a line, a colon, and a value that runs to the CR ending the line, blanks before it
  set aside. \<open>Valued v\<close>: the first \<^verbatim>\<open>Content-Length:\<close> of the text, in any letter
  case, is the name of a header line of that first header block, and \<open>v\<close> is its
  value. \<open>Missing\<close>: the text has no \<^verbatim>\<open>Content-Length:\<close> at all. \<open>Misplaced\<close>: the
  first one stands elsewhere (in the request line, inside another header's name or
  value, or behind the header block).
\<close>

definition blank :: "char \<Rightarrow> bool" where
  "blank c = (c = CHR 0x20 \<or> c = CHR 0x09)"

datatype header_reading = Missing | Misplaced | Valued string

definition content_length_line :: "string \<Rightarrow> nat \<Rightarrow> header_reading" where
  "content_length_line text off =
     (case find_sub (map tolower text) ''content-length:'' of
        None \<Rightarrow> Missing
      | Some p \<Rightarrow>
          if 2 \<le> p \<and> take 2 (drop (p - 2) text) = CRLF \<and> p + 15 \<le> off
          then Valued (dropWhile blank (takeWhile (\<lambda>c. c \<noteq> CHR 0x0D) (drop (p + 15) text)))
          else Misplaced)"

text \<open>
  The body length such a header block declares: 0 without the header, the number when
  the value is decimal digits with nothing but blanks after them.
\<close>

definition declared_length :: "string \<Rightarrow> nat \<Rightarrow> nat option" where
  "declared_length text off =
     (case content_length_line text off of
        Missing \<Rightarrow> Some 0
      | Misplaced \<Rightarrow> None
      | Valued v \<Rightarrow>
          if takeWhile isdigit v \<noteq> [] \<and> list_all blank (dropWhile isdigit v)
          then Some (nat (decimal (takeWhile isdigit v))) else None)"

text \<open>
  A header value that gives no body length: it starts with a byte that is not white
  space, and what \<^verbatim>\<open>%zd\<close> reads from it is no number at all or a negative one.
\<close>

definition no_length :: "string \<Rightarrow> bool" where
  "no_length v =
     (v \<noteq> [] \<and> \<not> isspace (hd v) \<and> (case scan_zd v of None \<Rightarrow> True | Some n \<Rightarrow> n < 0))"

text \<open>A method token: at most 15 bytes, none of them white space or NUL.\<close>

definition method_bytes :: "string \<Rightarrow> bool" where
  "method_bytes m = (length m \<le> 15 \<and> list_all (\<lambda>c. \<not> isspace c \<and> c \<noteq> NUL) m)"

text \<open>
  Two bytes that a change of letter case in the method token may put in each other's
  place: equal, or both neither white space nor NUL.
\<close>

definition same_text :: "char \<Rightarrow> char \<Rightarrow> bool" where
  "same_text a b = (a = b \<or> (\<not> isspace a \<and> \<not> isspace b \<and> a \<noteq> NUL \<and> b \<noteq> NUL))"

section \<open>Example inputs\<close>

definition ex_put :: string where
  "ex_put = ''PUT /dynamic/a HTTP/1.1'' @ CRLF @ ''Content-Length: 3'' @ CRLFCRLF @ ''abc''"

definition ex_put_rest :: string where
  "ex_put_rest = '' /dynamic/a HTTP/1.1'' @ CRLF @ ''Content-Length: 3'' @ CRLFCRLF @ ''abc''"

definition ex_get :: string where
  "ex_get = ''GET /dynamic/a HTTP/1.1'' @ CRLFCRLF"

definition ex_delete_b :: string where
  "ex_delete_b = ''DELETE /dynamic/b HTTP/1.1'' @ CRLFCRLF"

definition ex_partial :: string where
  "ex_partial = ''PUT /dynamic/a HTTP/1.1'' @ CRLF @ ''Content-Length: 5'' @ CRLFCRLF @ ''abc''"

definition ex_complete :: string where
  "ex_complete =
     ''PUT /dynamic/a HTTP/1.1'' @ CRLF @ ''Content-Length: 5'' @ CRLFCRLF @ ''abcde''"

definition ex_put_negative :: string where
  "ex_put_negative = ''PUT /dynamic/a HTTP/1.1'' @ CRLF @ ''Content-Length: -5'' @ CRLFCRLF"

definition ex_put_huge :: string where
  "ex_put_huge = ''PUT /dynamic/a HTTP/1.1'' @ CRLF @ ''Content-Length: 9000'' @ CRLFCRLF"

definition ex_put_shadowed :: string where
  "ex_put_shadowed =
     ''PUT /dynamic/a HTTP/1.1'' @ CRLF @ ''X-Content-Length: 1'' @ CRLF
       @ ''Content-Length: 3'' @ CRLFCRLF @ ''abc''"

definition ex_put_trailing :: string where
  "ex_put_trailing =
     ''PUT /dynamic/a HTTP/1.1'' @ CRLF @ ''Content-Length: 3abc'' @ CRLFCRLF @ ''xyz''"


definition ex_slot_b :: DynamicResource where
  "ex_slot_b = \<lparr>path = ''/dynamic/b'', content = ''b'', in_use = True, content_length = 1\<rparr>"

section \<open>Searching and scanning\<close>

lemma take_eq_length: "take (length n) s = n \<Longrightarrow> length n \<le> length s"
proof -
  assume a: "take (length n) s = n"
  have "length (take (length n) s) \<le> length s" by simp
  then show ?thesis by (simp only: a)
qed

lemma starts_with_iff: "starts_with s n = (take (length n) s = n)"
  by (induction s n rule: starts_with.induct) auto

lemma find_sub_Some:
  "find_sub s n = Some k \<Longrightarrow> k + length n \<le> length s \<and> take (length n) (drop k s) = n"
proof (induction s arbitrary: k)
  case Nil
  then show ?case by (simp split: if_splits)
next
  case (Cons c cs)
  show ?case
  proof (cases "starts_with (c # cs) n")
    case True
    with Cons.prems have "k = 0" by simp
    moreover from True have "take (length n) (c # cs) = n" by (simp only: starts_with_iff)
    moreover from this have "length n \<le> length (c # cs)"
      by (rule take_eq_length)
    ultimately show ?thesis by simp
  next
    case False
    with Cons.prems obtain k' where "find_sub cs n = Some k'" "k = Suc k'" by auto
    with Cons.IH[of k'] show ?thesis by simp
  qed
qed

lemma find_sub_first:
  "find_sub s n = Some k \<Longrightarrow> j < k \<Longrightarrow> take (length n) (drop j s) \<noteq> n"
proof (induction s arbitrary: k j)
  case Nil
  then show ?case by (simp split: if_splits)
next
  case (Cons c cs)
  show ?case
  proof (cases "starts_with (c # cs) n")
    case True
    with Cons.prems show ?thesis by simp
  next
    case False
    with Cons.prems obtain k' where k': "find_sub cs n = Some k'" "k = Suc k'" by auto
    show ?thesis
    proof (cases j)
      case 0
      with False show ?thesis by (simp only: starts_with_iff drop_0 not_False_eq_True)
    next
      case (Suc j')
      with Cons.prems k' have "j' < k'" by simp
      from Cons.IH[OF k'(1) this] Suc show ?thesis by simp
    qed
  qed
qed

lemma find_sub_None:
  "find_sub s n = None \<Longrightarrow> take (length n) (drop j s) \<noteq> n"
proof (induction s arbitrary: j)
  case Nil
  then show ?case by (auto split: if_splits)
next
  case (Cons c cs)
  then have nf: "\<not> starts_with (c # cs) n" and rest: "find_sub cs n = None"
    by (auto split: if_splits)
  show ?case
  proof (cases j)
    case 0
    with nf show ?thesis by (simp only: starts_with_iff drop_0 not_False_eq_True)
  next
    case (Suc j')
    from Cons.IH[OF rest, of j'] Suc show ?thesis by simp
  qed
qed

lemma length_CRLFCRLF: "length CRLFCRLF = 4"
  by (simp add: CRLFCRLF_def)

lemma find_sub_terminator:
  "(find_sub text CRLFCRLF = Some off) = terminator_at text off"
proof
  assume f: "find_sub text CRLFCRLF = Some off"
  from find_sub_Some[OF f] find_sub_first[OF f] show "terminator_at text off"
    unfolding terminator_at_def length_CRLFCRLF by blast
next
  assume t: "terminator_at text off"
  then have at_off: "take (length CRLFCRLF) (drop off text) = CRLFCRLF"
    and first: "\<forall>k<off. take (length CRLFCRLF) (drop k text) \<noteq> CRLFCRLF"
    unfolding terminator_at_def length_CRLFCRLF by blast+
  from at_off find_sub_None[of _ CRLFCRLF off] obtain k where k: "find_sub text CRLFCRLF = Some k"
    by (cases "find_sub text CRLFCRLF") auto
  from find_sub_Some[OF k] first have "\<not> k < off" by blast
  moreover from find_sub_first[OF k, of off] at_off have "\<not> off < k" by blast
  ultimately show "find_sub text CRLFCRLF = Some off"
    using k by simp
qed

lemma c_str_no_NUL: "NUL \<notin> set (c_str mem)"
  unfolding c_str_def by (induction mem) auto

lemma c_str_id: "NUL \<notin> set mem \<Longrightarrow> c_str mem = mem"
  unfolding c_str_def by (induction mem) auto

lemma c_str_append: "NUL \<notin> set a \<Longrightarrow> c_str (a @ b) = a @ c_str b"
  unfolding c_str_def by (induction a) auto

lemma c_str_length: "length (c_str mem) \<le> length mem"
  unfolding c_str_def by (rule length_takeWhile_le)

lemma c_str_set: "set (c_str mem) \<subseteq> set mem"
  unfolding c_str_def by (auto dest: set_takeWhileD)

lemma scan_s_token:
  assumes "scan_s w s = Some (tok, rest)"
  shows "tok \<noteq> [] \<and> length tok \<le> w \<and> set tok \<subseteq> set s \<and> set rest \<subseteq> set s
         \<and> (\<forall>c \<in> set tok. \<not> isspace c)"
proof -
  define s' where "s' = dropWhile isspace s"
  define tw where "tw = takeWhile (\<lambda>c. \<not> isspace c) s'"
  have unfold: "scan_s w s = (if take w tw = [] then None
                              else Some (take w tw, drop (length (take w tw)) s'))"
    unfolding scan_s_def Let_def s'_def tw_def by (rule refl)
  from assms have "tok \<noteq> [] \<and> tok = take w tw \<and> rest = drop (length tok) s'"
    by (auto simp: unfold split: if_splits)
  then have ne: "tok \<noteq> []" and tok: "tok = take w tw" and rest: "rest = drop (length tok) s'"
    by blast+
  have 1: "set tok \<subseteq> set tw"
    unfolding tok by (rule set_take_subset)
  have 2: "set tw \<subseteq> set s'"
    unfolding tw_def by (auto dest: set_takeWhileD)
  have 3: "set s' \<subseteq> set s"
    unfolding s'_def by (auto dest: set_dropWhileD)
  have 4: "\<forall>c \<in> set tw. \<not> isspace c"
    unfolding tw_def by (auto dest: set_takeWhileD)
  have 5: "set rest \<subseteq> set s'"
    unfolding rest by (rule set_drop_subset)
  have 6: "length tok \<le> w"
    unfolding tok by simp
  from 1 2 3 have "set tok \<subseteq> set s" by blast
  moreover from 5 3 have "set rest \<subseteq> set s" by blast
  moreover from 1 4 have "\<forall>c \<in> set tok. \<not> isspace c" by blast
  ultimately show ?thesis
    using ne 6 by blast
qed

lemma scan_request_line_tokens:
  assumes "scan_request_line request = Some (method, pth, version)"
  shows "NUL \<notin> set method \<and> NUL \<notin> set pth \<and> length pth \<le> 255 \<and> length method \<le> 15"
proof -
  from assms obtain r1 r2 r3 where
    a: "scan_s 15 (c_str request) = Some (method, r1)" and
    b: "scan_s 255 r1 = Some (pth, r2)" and
    c: "scan_s 15 r2 = Some (version, r3)"
    unfolding scan_request_line_def
    by (simp split: option.splits prod.splits)
  from scan_s_token[OF a] have m: "length method \<le> 15" "set method \<subseteq> set (c_str request)"
    "set r1 \<subseteq> set (c_str request)" by blast+
  from scan_s_token[OF b] have p: "length pth \<le> 255" "set pth \<subseteq> set r1" by blast+
  from m p c_str_no_NUL[of request]
  show ?thesis by blast
qed

section \<open>The slot scan\<close>

lemma scan_slots_found:
  "fst (scan_slots rs p i a) = Some k \<Longrightarrow>
     i \<le> k \<and> k - i < length rs \<and> in_use (rs ! (k - i)) \<and> strcmp_eq (path (rs ! (k - i))) p \<and>
     (\<forall>j < k - i. \<not> (in_use (rs ! j) \<and> strcmp_eq (path (rs ! j)) p))"
proof (induction rs p i a rule: scan_slots.induct)
  case (1 pth i available_slot)
  then show ?case by simp
next
  case (2 r rs pth i available_slot)
  show ?case
  proof (cases "in_use r \<and> strcmp_eq (path r) pth")
    case True
    with 2 show ?thesis by simp
  next
    case False
    with 2 have *: "Suc i \<le> k \<and> k - Suc i < length rs \<and> in_use (rs ! (k - Suc i)) \<and>
        strcmp_eq (path (rs ! (k - Suc i))) pth \<and>
        (\<forall>j < k - Suc i. \<not> (in_use (rs ! j) \<and> strcmp_eq (path (rs ! j)) pth))"
      by (auto split: if_splits)
    then have k: "k - i = Suc (k - Suc i)" by arith
    show ?thesis
      using * False unfolding k
      by (auto simp: less_Suc_eq_0_disj)
  qed
qed

lemma scan_slots_absent:
  "(fst (scan_slots rs p i a) = None) = (\<forall>r \<in> set rs. \<not> (in_use r \<and> strcmp_eq (path r) p))"
  by (induction rs p i a rule: scan_slots.induct) auto

lemma scan_slots_free:
  "fst (scan_slots rs p i a) = None \<Longrightarrow>
     snd (scan_slots rs p i a) =
       (if a \<noteq> None then a
        else if \<forall>r \<in> set rs. in_use r then None
        else Some (i + length (takeWhile in_use rs)))"
  by (induction rs p i a rule: scan_slots.induct) (auto split: if_splits)

lemma first_free:
  assumes "\<not> (\<forall>r \<in> set rs. in_use r)"
  shows "length (takeWhile in_use rs) < length rs \<and> \<not> in_use (rs ! length (takeWhile in_use rs))
         \<and> (\<forall>k < length (takeWhile in_use rs). in_use (rs ! k))"
  using assms by (induction rs) (auto simp: nth_Cons')

lemma scan_slots_first:
  "j < length rs \<Longrightarrow> holds (rs ! j) p \<Longrightarrow> \<forall>k<j. \<not> holds (rs ! k) p \<Longrightarrow>
     fst (scan_slots rs p i a) = Some (i + j)"
proof (induction rs arbitrary: i j a)
  case Nil
  then show ?case by simp
next
  case (Cons r rs)
  show ?case
  proof (cases j)
    case 0
    with Cons.prems show ?thesis by (simp add: holds_def)
  next
    case (Suc j')
    with Cons.prems have nh: "\<not> holds r p" by auto
    from Suc Cons.prems have "j' < length rs" "holds (rs ! j') p" "\<forall>k<j'. \<not> holds (rs ! k) p"
      by auto
    from Cons.IH[OF this] have ih: "\<And>i a. fst (scan_slots rs p i a) = Some (i + j')" .
    from nh show ?thesis
      by (cases "in_use r") (simp_all add: holds_def ih Suc)
  qed
qed

section \<open>Routing\<close>

lemma dynamic_not_static: "strncmp_eq pth ''/dynamic/'' 9 \<Longrightarrow> \<not> strncmp_eq pth ''/static/'' 8"
proof
  assume d: "strncmp_eq pth ''/dynamic/'' 9" and s: "strncmp_eq pth ''/static/'' 8"
  from d have "take 9 (c_str pth) = ''/dynamic/''"
    by (simp add: strncmp_eq_def c_str_def NUL_def)
  then have "take 8 (take 9 (c_str pth)) = ''/dynamic''" by simp
  then have "take 8 (c_str pth) = ''/dynamic''" by simp
  moreover from s have "take 8 (c_str pth) = ''/static/''"
    by (simp add: strncmp_eq_def c_str_def NUL_def)
  ultimately show False by simp
qed

lemma method_distinct:
  "strcasecmp_eq m ''PUT'' \<Longrightarrow> \<not> strcasecmp_eq m ''HEAD''"
  "strcasecmp_eq m ''GET'' \<Longrightarrow> \<not> strcasecmp_eq m ''HEAD''"
  "strcasecmp_eq m ''GET'' \<Longrightarrow> \<not> strcasecmp_eq m ''PUT''"
  "strcasecmp_eq m ''DELETE'' \<Longrightarrow> \<not> strcasecmp_eq m ''HEAD''"
  by (simp_all add: strcasecmp_eq_def c_str_def NUL_def tolower_def)

lemma routed_scan:
  "routed request method pth \<Longrightarrow> \<exists>version. scan_request_line request = Some (method, pth, version)"
  by (auto simp: routed_def)

lemma routed_dynamic:
  assumes "routed request method pth" and "strncmp_eq pth ''/dynamic/'' 9"
    and "\<not> strcasecmp_eq method ''HEAD''"
  shows "process_request request store = handle_dynamic request method pth store"
proof -
  from assms(1) obtain version where "scan_request_line request = Some (method, pth, version)"
    and "count_headers request \<le> MAX_HEADERS" and "validate_headers request"
    by (auto simp: routed_def)
  with assms(2,3) dynamic_not_static[OF assms(2)] show ?thesis
    by (simp add: process_request_def)
qed

lemma validate_headers_terminator:
  "validate_headers request \<Longrightarrow> \<exists>off. strstr request CRLFCRLF = Some off"
  by (auto simp: validate_headers_def split: option.splits)

lemma token_path:
  assumes "routed request method pth"
  shows "take 255 (c_str pth) = pth"
proof -
  from routed_scan[OF assms] obtain version where
    "scan_request_line request = Some (method, pth, version)" by blast
  from scan_request_line_tokens[OF this] show ?thesis
    by (simp add: c_str_id)
qed

lemma slot_overwrite:
  "(r :: DynamicResource)\<lparr>in_use := True, path := p, content := c, content_length := n\<rparr> =
     \<lparr>path = p, content = c, in_use = True, content_length = n\<rparr>"
  by (cases r) simp

lemma put_unfold:
  assumes "routed request method pth" and "strcasecmp_eq method ''PUT''"
    and "strncmp_eq pth ''/dynamic/'' 9"
    and "0 \<le> get_content_length request" and "get_content_length request < int BUFFER_SIZE"
  shows "process_request request store =
     (case fst (scan_slots store pth 0 None) of
        Some i \<Rightarrow>
          (send_response 204 ''No Content'' None 0,
           store[i := (store ! i)\<lparr>content := put_body request,
                                  content_length := nat (get_content_length request)\<rparr>])
      | None \<Rightarrow>
          (case snd (scan_slots store pth 0 None) of
             Some j \<Rightarrow>
               (send_response 201 ''Created'' None 0,
                store[j := \<lparr>path = pth, content = put_body request, in_use = True,
                             content_length = nat (get_content_length request)\<rparr>])
           | None \<Rightarrow> (send_response 507 ''Insufficient Storage'' None 0, store)))"
proof -
  from assms(1) have v: "validate_headers request" by (simp add: routed_def)
  from validate_headers_terminator[OF v] obtain off where off: "strstr request CRLFCRLF = Some off"
    by blast
  have pb: "put_body request = take (nat (get_content_length request)) (drop (off + 4) request)"
    by (simp add: put_body_def off)
  have "process_request request store = handle_dynamic request method pth store"
    by (rule routed_dynamic[OF assms(1) assms(3) method_distinct(1)[OF assms(2)]])
  also have "\<dots> = handle_put request pth (fst (scan_slots store pth 0 None))
      (snd (scan_slots store pth 0 None)) store"
    by (simp add: handle_dynamic_def assms(2) split: prod.splits)
  also have "\<dots> = (case fst (scan_slots store pth 0 None) of
        Some i \<Rightarrow>
          (send_response 204 ''No Content'' None 0,
           store[i := (store ! i)\<lparr>content := put_body request,
                                  content_length := nat (get_content_length request)\<rparr>])
      | None \<Rightarrow>
          (case snd (scan_slots store pth 0 None) of
             Some j \<Rightarrow>
               (send_response 201 ''Created'' None 0,
                store[j := \<lparr>path = pth, content = put_body request, in_use = True,
                             content_length = nat (get_content_length request)\<rparr>])
           | None \<Rightarrow> (send_response 507 ''Insufficient Storage'' None 0, store)))"
    using assms(4,5)
    by (simp add: handle_put_def off pb[symmetric] token_path[OF assms(1)] Let_def slot_overwrite
        split: option.splits)
  finally show ?thesis .
qed

lemma put_invalid_length:
  assumes "routed request method pth" and "strcasecmp_eq method ''PUT''"
    and "strncmp_eq pth ''/dynamic/'' 9"
    and "get_content_length request < 0 \<or> int BUFFER_SIZE \<le> get_content_length request"
  shows "process_request request store =
           (send_response 411 ''Length Required'' (Some ''Invalid Content-Length'') 20, store)"
proof -
  from assms(1) have v: "validate_headers request" by (simp add: routed_def)
  from validate_headers_terminator[OF v] obtain off where off: "strstr request CRLFCRLF = Some off"
    by blast
  have "process_request request store = handle_dynamic request method pth store"
    by (rule routed_dynamic[OF assms(1) assms(3) method_distinct(1)[OF assms(2)]])
  also have "\<dots> = handle_put request pth (fst (scan_slots store pth 0 None))
      (snd (scan_slots store pth 0 None)) store"
    by (simp add: handle_dynamic_def assms(2) split: prod.splits)
  also have "\<dots> = (send_response 411 ''Length Required'' (Some ''Invalid Content-Length'') 20, store)"
    using assms(4) by (auto simp: handle_put_def off Let_def)
  finally show ?thesis .
qed

lemma get_found:
  assumes "routed request method pth" and "strcasecmp_eq method ''GET''"
    and "strncmp_eq pth ''/dynamic/'' 9"
    and "i < length store" and "holds (store ! i) pth" and "\<forall>k<i. \<not> holds (store ! k) pth"
  shows "process_request request store =
           (send_response 200 ''OK'' (Some (content (store ! i))) (content_length (store ! i)), store)"
proof -
  from scan_slots_first[OF assms(4,5,6), of 0 None]
  obtain a where sc: "scan_slots store pth 0 None = (Some i, a)"
    by (cases "scan_slots store pth 0 None") simp
  have "process_request request store = handle_dynamic request method pth store"
    by (rule routed_dynamic[OF assms(1) assms(3) method_distinct(2)[OF assms(2)]])
  also have "\<dots> = (send_response 200 ''OK'' (Some (content (store ! i))) (content_length (store ! i)), store)"
    by (simp add: handle_dynamic_def sc assms(2) method_distinct(3)[OF assms(2)])
  finally show ?thesis .
qed

lemma unscannable_request:
  "scan_request_line request = None \<Longrightarrow>
     process_request request store =
       (send_response 400 ''Bad Request'' (Some ''Invalid Request Format'') 21, store)"
  by (simp add: process_request_def)

section \<open>What a request does to the store\<close>

lemma handle_dynamic_effect:
  "snd (handle_dynamic request method pth store) = store
   \<or> (\<exists>k new. k < length store \<and> snd (handle_dynamic request method pth store) = store[k := new]
         \<and> holds (store ! k) pth \<and> path new = path (store ! k)
         \<and> (in_use new \<longrightarrow> in_use (store ! k)))
   \<or> (\<exists>k new. k < length store \<and> snd (handle_dynamic request method pth store) = store[k := new]
         \<and> \<not> in_use (store ! k) \<and> in_use new \<and> path new = take 255 (c_str pth)
         \<and> (\<forall>r \<in> set store. \<not> holds r pth))"
proof (cases "fst (scan_slots store pth 0 None)")
  case None
  then have absent: "\<forall>r \<in> set store. \<not> holds r pth"
    by (simp add: scan_slots_absent holds_def)
  show ?thesis
  proof (cases "snd (scan_slots store pth 0 None)")
    case N2: None
    with None have "scan_slots store pth 0 None = (None, None)"
      by (simp add: prod_eq_iff)
    then have "snd (handle_dynamic request method pth store) = store"
      by (simp add: handle_dynamic_def handle_put_def Let_def split: option.splits)
    then show ?thesis by blast
  next
    case (Some j)
    with None have sc: "scan_slots store pth 0 None = (None, Some j)"
      by (simp add: prod_eq_iff)
    from scan_slots_free[OF None] Some have nf: "\<not> (\<forall>r \<in> set store. in_use r)"
      and j: "j = length (takeWhile in_use store)"
      by (auto split: if_splits)
    from first_free[OF nf] j have jl: "j < length store" and ju: "\<not> in_use (store ! j)"
      by simp_all
    let ?new = "(store ! j)\<lparr>in_use := True, path := take 255 (c_str pth),
        content := take (nat (get_content_length request))
                     (drop (the (strstr request CRLFCRLF) + 4) request),
        content_length := nat (get_content_length request)\<rparr>"
    have "snd (handle_dynamic request method pth store) = store
        \<or> snd (handle_dynamic request method pth store) = store[j := ?new]"
      by (simp add: handle_dynamic_def handle_put_def Let_def sc split: option.splits)
    moreover have "in_use ?new" "path ?new = take 255 (c_str pth)" by simp_all
    ultimately show ?thesis
      using jl ju absent by blast
  qed
next
  case (Some i)
  from scan_slots_found[OF Some] have il: "i < length store" and ih: "holds (store ! i) pth"
    by (simp_all add: holds_def)
  obtain a where sc: "scan_slots store pth 0 None = (Some i, a)"
    using Some by (cases "scan_slots store pth 0 None") simp
  let ?upd = "(store ! i)\<lparr>content := take (nat (get_content_length request))
                     (drop (the (strstr request CRLFCRLF) + 4) request),
        content_length := nat (get_content_length request)\<rparr>"
  let ?del = "(store ! i)\<lparr>in_use := False, content := [], content_length := 0\<rparr>"
  have "snd (handle_dynamic request method pth store) = store
      \<or> snd (handle_dynamic request method pth store) = store[i := ?upd]
      \<or> snd (handle_dynamic request method pth store) = store[i := ?del]"
    by (simp add: handle_dynamic_def handle_put_def Let_def sc split: option.splits)
  moreover have "path ?upd = path (store ! i)" "in_use ?upd \<longrightarrow> in_use (store ! i)"
    "path ?del = path (store ! i)" "in_use ?del \<longrightarrow> in_use (store ! i)"
    by simp_all
  ultimately show ?thesis
    using il ih by blast
qed

lemma process_request_effect:
  "snd (process_request request store) = store
   \<or> (\<exists>pth k new. request_path request = Some pth \<and> NUL \<notin> set pth \<and> length pth \<le> 255
         \<and> k < length store \<and> snd (process_request request store) = store[k := new]
         \<and> ((holds (store ! k) pth \<and> path new = path (store ! k)
              \<and> (in_use new \<longrightarrow> in_use (store ! k)))
            \<or> (\<not> in_use (store ! k) \<and> in_use new \<and> path new = pth
              \<and> (\<forall>r \<in> set store. \<not> holds r pth))))"
proof (cases "scan_request_line request")
  case None
  then show ?thesis by (simp add: process_request_def)
next
  case (Some t)
  then obtain m pth version where t: "scan_request_line request = Some (m, pth, version)"
    by (cases t) auto
  from scan_request_line_tokens[OF t] have tok: "NUL \<notin> set pth" "length pth \<le> 255"
    by simp_all
  then have tp: "take 255 (c_str pth) = pth"
    by (simp add: c_str_id)
  have rp: "request_path request = Some pth"
    by (simp add: request_path_def t)
  have "snd (process_request request store) = store
      \<or> snd (process_request request store) = snd (handle_dynamic request m pth store)"
    by (simp add: process_request_def t split: option.splits)
  with handle_dynamic_effect[of request m pth store] tok rp show ?thesis
    unfolding tp by metis
qed



section \<open>Example evaluations\<close>


section \<open>PUT on a dynamic path\<close>



section \<open>Capacity\<close>



section \<open>What a PUT stores\<close>

lemma put_stores:
  assumes "routed request method pth" and "strcasecmp_eq method ''PUT''"
    and "strncmp_eq pth ''/dynamic/'' 9"
    and "status_code (fst (process_request request store)) = 201
         \<or> status_code (fst (process_request request store)) = 204"
  shows "\<exists>i<length (snd (process_request request store)).
           holds (snd (process_request request store) ! i) pth
           \<and> (\<forall>k<i. \<not> holds (snd (process_request request store) ! k) pth)
           \<and> content (snd (process_request request store) ! i) = put_body request
           \<and> content_length (snd (process_request request store) ! i)
               = nat (get_content_length request)"
proof -
  have "\<not> (get_content_length request < 0 \<or> int BUFFER_SIZE \<le> get_content_length request)"
  proof
    assume "get_content_length request < 0 \<or> int BUFFER_SIZE \<le> get_content_length request"
    from put_invalid_length[OF assms(1,2,3) this, of store]
    have "status_code (fst (process_request request store)) = 411"
      by (simp add: send_response_def)
    with assms(4) show False by simp
  qed
  then have valid: "0 \<le> get_content_length request" "get_content_length request < int BUFFER_SIZE"
    by simp_all
  note u = put_unfold[OF assms(1,2,3) valid, of store]
  from routed_scan[OF assms(1)] obtain version where
    "scan_request_line request = Some (method, pth, version)" by blast
  from scan_request_line_tokens[OF this] have cp: "c_str pth = pth"
    by (simp add: c_str_id)
  show ?thesis
  proof (cases "fst (scan_slots store pth 0 None)")
    case (Some i)
    from scan_slots_found[OF Some] have il: "i < length store" and ih: "holds (store ! i) pth"
      and first: "\<forall>k<i. \<not> holds (store ! k) pth"
      by (simp_all add: holds_def)
    let ?new = "(store ! i)\<lparr>content := put_body request,
                           content_length := nat (get_content_length request)\<rparr>"
    from u Some have s: "snd (process_request request store) = store[i := ?new]"
      by simp
    have "holds (store[i := ?new] ! i) pth" using il ih by (simp add: holds_def)
    moreover have "\<forall>k<i. \<not> holds (store[i := ?new] ! k) pth" using first by simp
    moreover have "content (store[i := ?new] ! i) = put_body request"
      "content_length (store[i := ?new] ! i) = nat (get_content_length request)"
      using il by simp_all
    ultimately show ?thesis
      unfolding s using il by auto
  next
    case None
    show ?thesis
    proof (cases "snd (scan_slots store pth 0 None)")
      case N2: None
      with u None have "status_code (fst (process_request request store)) = 507"
        by (simp add: send_response_def)
      with assms(4) show ?thesis by simp
    next
      case (Some j)
      let ?new = "\<lparr>path = pth, content = put_body request, in_use = True,
                   content_length = nat (get_content_length request)\<rparr>"
      from u None Some have s: "snd (process_request request store) = store[j := ?new]"
        by simp
      from scan_slots_free[OF None] Some have nf: "\<not> (\<forall>r \<in> set store. in_use r)"
        and j: "j = length (takeWhile in_use store)"
        by (auto split: if_splits)
      from first_free[OF nf] j have jl: "j < length store" by simp
      from None have absent: "\<forall>r \<in> set store. \<not> holds r pth"
        by (simp add: scan_slots_absent holds_def)
      have "holds (store[j := ?new] ! j) pth"
        using jl by (simp add: holds_def strcmp_eq_def)
      moreover have "\<forall>k<j. \<not> holds (store[j := ?new] ! k) pth"
        using absent jl by simp
      moreover have "content (store[j := ?new] ! j) = put_body request"
        "content_length (store[j := ?new] ! j) = nat (get_content_length request)"
        using jl by simp_all
      ultimately show ?thesis
        unfolding s using jl by auto
    qed
  qed
qed

lemma other_path_keeps:
  assumes "request_path request \<noteq> Some pth" and "NUL \<notin> set pth"
    and "i < length store" and "holds (store ! i) pth" and "\<forall>k<i. \<not> holds (store ! k) pth"
  shows "i < length (snd (process_request request store))
         \<and> holds (snd (process_request request store) ! i) pth
         \<and> (\<forall>k<i. \<not> holds (snd (process_request request store) ! k) pth)
         \<and> snd (process_request request store) ! i = store ! i"
proof -
  from process_request_effect[of request store]
  consider "snd (process_request request store) = store"
    | q k new where "request_path request = Some q" "NUL \<notin> set q" "k < length store"
        "snd (process_request request store) = store[k := new]"
        "holds (store ! k) q" "path new = path (store ! k)"
    | q k new where "request_path request = Some q" "NUL \<notin> set q" "k < length store"
        "snd (process_request request store) = store[k := new]"
        "\<not> in_use (store ! k)" "path new = q"
    by blast
  then show ?thesis
  proof cases
    case 1
    with assms show ?thesis by simp
  next
    case 2
    from 2(1) assms(1) have qp: "q \<noteq> pth" by auto
    from 2(5) have "c_str (path (store ! k)) = q"
      by (simp add: holds_def strcmp_eq_def c_str_id[OF 2(2)])
    with qp have old: "\<not> holds (store ! k) pth" and new: "\<not> holds new pth"
      by (auto simp: holds_def strcmp_eq_def c_str_id[OF assms(2)] 2(6))
    from old assms(4) have "k \<noteq> i" by auto
    with assms(3,4,5) old new 2(3) show ?thesis
      unfolding 2(4) by (auto simp: nth_list_update)
  next
    case 3
    from 3(1) assms(1) have qp: "q \<noteq> pth" by auto
    from 3(5) have old: "\<not> holds (store ! k) pth" by (simp add: holds_def)
    from qp have new: "\<not> holds new pth"
      by (auto simp: holds_def strcmp_eq_def c_str_id[OF assms(2)] c_str_id[OF 3(2)] 3(6))
    from old assms(4) have "k \<noteq> i" by auto
    with assms(3,4,5) old new 3(3) show ?thesis
      unfolding 3(4) by (auto simp: nth_list_update)
  qed
qed

lemma no_write_same_store:
  assumes "scan_request_line request = Some (m, p, v)"
    and "\<not> strcasecmp_eq m ''PUT''" and "\<not> strcasecmp_eq m ''DELETE''"
  shows "snd (process_request request store) = store"
  using assms
  by (auto simp: process_request_def handle_dynamic_def split: option.splits prod.splits)

lemma no_write_keeps:
  assumes "\<not> writes_to request pth" and "NUL \<notin> set pth"
    and "i < length store" and "holds (store ! i) pth" and "\<forall>k<i. \<not> holds (store ! k) pth"
  shows "i < length (snd (process_request request store))
         \<and> holds (snd (process_request request store) ! i) pth
         \<and> (\<forall>k<i. \<not> holds (snd (process_request request store) ! k) pth)
         \<and> snd (process_request request store) ! i = store ! i"
proof (cases "request_path request = Some pth")
  case False
  from other_path_keeps[OF False assms(2,3,4,5)] show ?thesis .
next
  case True
  then obtain m v where sc: "scan_request_line request = Some (m, pth, v)"
    by (auto simp: request_path_def)
  with assms(1) have "\<not> strcasecmp_eq m ''PUT''" "\<not> strcasecmp_eq m ''DELETE''"
    by (simp_all add: writes_to_def)
  from no_write_same_store[OF sc this] assms(3,4,5) show ?thesis
    by simp
qed

lemma other_requests_keep:
  assumes "list_all (\<lambda>r. \<not> writes_to r pth) others" and "NUL \<notin> set pth"
    and "i < length store" and "holds (store ! i) pth" and "\<forall>k<i. \<not> holds (store ! k) pth"
  shows "i < length (process_requests others store)
         \<and> holds (process_requests others store ! i) pth
         \<and> (\<forall>k<i. \<not> holds (process_requests others store ! k) pth)
         \<and> process_requests others store ! i = store ! i"
  using assms
proof (induction others arbitrary: store)
  case Nil
  then show ?case by simp
next
  case (Cons r rs)
  from Cons.prems(1) have r: "\<not> writes_to r pth"
    and rs: "list_all (\<lambda>r. \<not> writes_to r pth) rs"
    by simp_all
  from no_write_keeps[OF r Cons.prems(2,3,4,5)]
  have k: "i < length (snd (process_request r store))"
    "holds (snd (process_request r store) ! i) pth"
    "\<forall>k<i. \<not> holds (snd (process_request r store) ! k) pth"
    and e: "snd (process_request r store) ! i = store ! i"
    by blast+
  from Cons.IH[OF rs Cons.prems(2) k]
  have ih: "i < length (process_requests rs (snd (process_request r store)))"
    "holds (process_requests rs (snd (process_request r store)) ! i) pth"
    "\<forall>k<i. \<not> holds (process_requests rs (snd (process_request r store)) ! k) pth"
    "process_requests rs (snd (process_request r store)) ! i = snd (process_request r store) ! i"
    by blast+
  from ih(4) e have "process_requests rs (snd (process_request r store)) ! i = store ! i"
    by (rule trans)
  with ih(1,2,3) show ?case
    by (simp only: process_requests.simps)
qed

text \<open>
  After a PUT on a dynamic path that was answered 201 or 204, whose
  \<^verbatim>\<open>content_length\<close> bytes lie in the request, and after any requests that do not write
  to the path (another path, or a method that is neither PUT nor DELETE), a GET on the
  same path that passes the checks is answered 200 with exactly the
  \<^verbatim>\<open>content_length\<close> bytes that followed the PUT's header terminator, and announces
  their number; what the slot held before plays no part.
\<close>

lemma put_then_get_stored:
  assumes "routed put method pth" and "strcasecmp_eq method ''PUT''"
    and "strncmp_eq pth ''/dynamic/'' 9"
    and "status_code (fst (process_request put store)) = 201
         \<or> status_code (fst (process_request put store)) = 204"
    and "strstr put CRLFCRLF = Some off"
    and "off + 4 + nat (get_content_length put) \<le> length put"
    and "list_all (\<lambda>r. \<not> writes_to r pth) others"
    and "routed get gmethod pth" and "strcasecmp_eq gmethod ''GET''"
  shows "status_code (fst (process_request get
             (process_requests others (snd (process_request put store))))) = 200
       \<and> body_sent (fst (process_request get
             (process_requests others (snd (process_request put store)))))
           = take (nat (get_content_length put)) (drop (off + 4) put)
       \<and> content_length_header (fst (process_request get
             (process_requests others (snd (process_request put store)))))
           = length (take (nat (get_content_length put)) (drop (off + 4) put))"
proof -
  define b where "b = take (nat (get_content_length put)) (drop (off + 4) put)"
  let ?s1 = "snd (process_request put store)"
  let ?s2 = "process_requests others ?s1"
  have pb: "put_body put = b" by (simp add: put_body_def assms(5) b_def)
  have lb: "nat (get_content_length put) = length b"
    using assms(6) by (simp add: b_def)
  from routed_scan[OF assms(1)] obtain version where
    "scan_request_line put = Some (method, pth, version)" by blast
  from scan_request_line_tokens[OF this] have nn: "NUL \<notin> set pth" by simp
  from put_stores[OF assms(1,2,3,4)] obtain i where
    i: "i < length ?s1" "holds (?s1 ! i) pth" "\<forall>k<i. \<not> holds (?s1 ! k) pth"
    and c: "content (?s1 ! i) = b" "content_length (?s1 ! i) = length b"
    unfolding pb lb by blast
  from other_requests_keep[OF assms(7) nn i]
  have i2: "i < length ?s2" "holds (?s2 ! i) pth" "\<forall>k<i. \<not> holds (?s2 ! k) pth"
    and e: "?s2 ! i = ?s1 ! i" by blast+
  from get_found[OF assms(8,9,3) i2] e c
  have "process_request get ?s2 = (send_response 200 ''OK'' (Some b) (length b), ?s2)"
    by simp
  then have "status_code (fst (process_request get ?s2)) = 200
      \<and> body_sent (fst (process_request get ?s2)) = b
      \<and> content_length_header (fst (process_request get ?s2)) = length b"
    by (simp add: send_response_def)
  then show ?thesis
    unfolding b_def .
qed

section \<open>Unique paths\<close>

lemma unique_paths_keep:
  assumes "unique_paths store" and "k < length store"
    and "path new = path (store ! k)" and "in_use new \<longrightarrow> in_use (store ! k)"
  shows "unique_paths (store[k := new])"
proof -
  have s: "store = take k store @ store ! k # drop (Suc k) store"
    using assms(2) by (rule id_take_nth_drop)
  have u: "store[k := new] = take k store @ new # drop (Suc k) store"
    using assms(2) by (rule upd_conv_take_nth_drop)
  from assms(1) have "distinct (map (\<lambda>slot. c_str (path slot)) (filter in_use (take k store @ store ! k # drop (Suc k) store)))"
    unfolding unique_paths_def using s by simp
  with assms(3,4) have "distinct (map (\<lambda>slot. c_str (path slot)) (filter in_use (take k store @ new # drop (Suc k) store)))"
    by (cases "in_use new"; cases "in_use (store ! k)") auto
  then show ?thesis
    unfolding unique_paths_def u .
qed

lemma unique_paths_fresh:
  assumes "unique_paths store" and "k < length store"
    and "\<forall>r \<in> set store. in_use r \<longrightarrow> c_str (path r) \<noteq> c_str (path new)"
  shows "unique_paths (store[k := new])"
proof -
  have s: "store = take k store @ store ! k # drop (Suc k) store"
    using assms(2) by (rule id_take_nth_drop)
  have u: "store[k := new] = take k store @ new # drop (Suc k) store"
    using assms(2) by (rule upd_conv_take_nth_drop)
  from assms(1) have d: "distinct (map (\<lambda>slot. c_str (path slot)) (filter in_use (take k store @ store ! k # drop (Suc k) store)))"
    unfolding unique_paths_def using s by simp
  have "set (take k store) \<subseteq> set store" "set (drop (Suc k) store) \<subseteq> set store"
    by (simp_all add: set_take_subset set_drop_subset)
  with assms(3) have f:
    "\<forall>r \<in> set (take k store). in_use r \<longrightarrow> c_str (path r) \<noteq> c_str (path new)"
    "\<forall>r \<in> set (drop (Suc k) store). in_use r \<longrightarrow> c_str (path r) \<noteq> c_str (path new)"
    by blast+
  from d f have "distinct (map (\<lambda>slot. c_str (path slot)) (filter in_use (take k store @ new # drop (Suc k) store)))"
    by (cases "in_use (store ! k)") auto
  then show ?thesis
    unfolding unique_paths_def u .
qed

lemma process_request_unique:
  assumes "unique_paths store"
  shows "unique_paths (snd (process_request request store))"
proof -
  from process_request_effect[of request store]
  consider "snd (process_request request store) = store"
    | pth k new where "NUL \<notin> set pth" "k < length store"
        "snd (process_request request store) = store[k := new]"
        "path new = path (store ! k)" "in_use new \<longrightarrow> in_use (store ! k)"
    | pth k new where "NUL \<notin> set pth" "k < length store"
        "snd (process_request request store) = store[k := new]"
        "path new = pth" "\<forall>r \<in> set store. \<not> holds r pth"
    by blast
  then show ?thesis
  proof cases
    case 1
    with assms show ?thesis by simp
  next
    case 2
    with unique_paths_keep[OF assms 2(2) 2(4) 2(5)] show ?thesis by simp
  next
    case 3
    have "\<forall>r \<in> set store. in_use r \<longrightarrow> c_str (path r) \<noteq> c_str (path new)"
    proof (intro ballI impI notI)
      fix r assume "r \<in> set store" "in_use r" "c_str (path r) = c_str (path new)"
      with 3(4) have "holds r pth" by (simp add: holds_def strcmp_eq_def)
      with 3(5) \<open>r \<in> set store\<close> show False by blast
    qed
    from unique_paths_fresh[OF assms 3(2) this] 3(3) show ?thesis by simp
  qed
qed

lemma process_requests_unique:
  "unique_paths store \<Longrightarrow> unique_paths (process_requests requests store)"
  by (induction requests arbitrary: store) (simp_all add: process_request_unique)

lemma dynamic_resources_unique: "unique_paths dynamic_resources"
  by (simp add: unique_paths_def dynamic_resources_def empty_slot_def)

text \<open>
  C7. No two slots in use have the same path: in every store reached from the initial
  table by processing requests, and after any one request on any store where it holds
  (lookup, create, update and delete are the branches of \<^verbatim>\<open>process_request\<close>).
\<close>

theorem unique_paths_invariant:
  "unique_paths (process_requests requests dynamic_resources)
   \<and> (unique_paths store \<longrightarrow> unique_paths (snd (process_request request store)))"
  using process_requests_unique[OF dynamic_resources_unique] process_request_unique by blast

text \<open>
  C7 on a store of two slots, one in use, and a PUT that creates a second resource.
\<close>

theorem unique_paths_invariant_witness:
  "unique_paths [ex_slot_b, empty_slot]
   \<and> unique_paths (snd (process_request ex_put [ex_slot_b, empty_slot]))"
proof -
  have u: "unique_paths [ex_slot_b, empty_slot]" by code_simp
  from unique_paths_invariant[of "[]" "[ex_slot_b, empty_slot]" ex_put] u show ?thesis by blast
qed

section \<open>A framed request holds its body\<close>

lemma frame_request_unfold:
  "frame_request buffer =
     (case strstr buffer CRLFCRLF of
        None \<Rightarrow> None
      | Some off \<Rightarrow>
          if off + 4 + body_length buffer \<le> length buffer
          then Some (off + 4 + body_length buffer) else None)"
  by (auto simp: frame_request_def body_length_def Let_def split: option.splits)

lemma starts_with_within:
  "length n \<le> length P \<Longrightarrow> starts_with (P @ S) n = starts_with P n"
  by (simp add: starts_with_iff)

lemma find_sub_prefix:
  "find_sub P n = Some k \<Longrightarrow> find_sub (P @ S) n = Some k"
proof (induction P arbitrary: k)
  case Nil
  then show ?case by (cases S) (auto split: if_splits)
next
  case (Cons c P)
  from find_sub_Some[OF Cons.prems] have "length n \<le> length (c # P)" by simp
  from starts_with_within[OF this, of S]
  have sw: "starts_with (c # P @ S) n = starts_with (c # P) n" by simp
  show ?case
  proof (cases "starts_with (c # P) n")
    case True
    with Cons.prems sw show ?thesis by simp
  next
    case False
    with Cons.prems obtain k' where "find_sub P n = Some k'" "k = Suc k'" by auto
    with Cons.IH[of k'] False sw show ?thesis by simp
  qed
qed

lemma find_sub_within:
  "find_sub (P @ S) n = Some k \<Longrightarrow> k + length n \<le> length P \<Longrightarrow> find_sub P n = Some k"
proof (induction P arbitrary: k)
  case Nil
  then show ?case by simp
next
  case (Cons c P)
  show ?case
  proof (cases "starts_with (c # P @ S) n")
    case True
    with Cons.prems have k: "k = 0" by simp
    with Cons.prems(2) have "length n \<le> length (c # P)" by simp
    from starts_with_within[OF this, of S] True have "starts_with (c # P) n" by simp
    with k show ?thesis by simp
  next
    case False
    with Cons.prems obtain k' where f: "find_sub (P @ S) n = Some k'" and k: "k = Suc k'"
      by auto
    from k Cons.prems(2) have "k' + length n \<le> length P" by simp
    from Cons.IH[OF f this] have ih: "find_sub P n = Some k'" .
    from find_sub_Some[OF ih] have "length n \<le> length (c # P)" by simp
    from starts_with_within[OF this, of S] False have "\<not> starts_with (c # P) n" by simp
    with ih k show ?thesis by simp
  qed
qed

lemma c_str_cut:
  "n < length buffer \<Longrightarrow> c_str (buffer[n := NUL]) = take n (c_str buffer)"
proof (induction buffer arbitrary: n)
  case Nil
  then show ?case by simp
next
  case (Cons c cs)
  show ?case
  proof (cases n)
    case 0
    then show ?thesis by (simp add: c_str_def)
  next
    case (Suc m)
    with Cons.prems have "m < length cs" by simp
    from Cons.IH[OF this] Suc show ?thesis
      by (simp add: c_str_def)
  qed
qed

lemma c_str_drop:
  "k \<le> length (c_str mem) \<Longrightarrow> c_str (drop k mem) = drop k (c_str mem)"
proof (induction mem arbitrary: k)
  case Nil
  then show ?case by (simp add: c_str_def)
next
  case (Cons c cs)
  show ?case
  proof (cases k)
    case 0
    then show ?thesis by simp
  next
    case (Suc m)
    with Cons.prems have "c \<noteq> NUL" and "m \<le> length (c_str cs)"
      by (auto simp: c_str_def split: if_splits)
    with Cons.IH[of m] Suc show ?thesis
      by (simp add: c_str_def)
  qed
qed

lemma digit_val_nonneg: "0 \<le> digit_val c"
proof (cases "map_of (zip ''0123456789'' [0, 1, 2, 3, 4, 5, 6, 7, 8, 9 :: int]) c")
  case None
  then show ?thesis by (simp add: digit_val_def)
next
  case (Some v)
  then have "(c, v) \<in> set (zip ''0123456789'' [0, 1, 2, 3, 4, 5, 6, 7, 8, 9 :: int])"
    by (rule map_of_SomeD)
  then have "v \<in> set [0, 1, 2, 3, 4, 5, 6, 7, 8, 9 :: int]"
    by (rule set_zip_rightD)
  then have "0 \<le> v" by auto
  with Some show ?thesis by (simp add: digit_val_def)
qed

lemma decimal_step_mono:
  "0 \<le> a \<Longrightarrow> a \<le> foldl (\<lambda>acc c. 10 * acc + digit_val c) a es"
proof (induction es arbitrary: a)
  case Nil
  then show ?case by simp
next
  case (Cons e es)
  have "a \<le> 10 * a + digit_val e"
    using Cons.prems digit_val_nonneg[of e] by simp
  moreover have "0 \<le> 10 * a + digit_val e"
    using Cons.prems digit_val_nonneg[of e] by simp
  from Cons.IH[OF this] have "10 * a + digit_val e
      \<le> foldl (\<lambda>acc c. 10 * acc + digit_val c) (10 * a + digit_val e) es" .
  ultimately show ?case by simp
qed

lemma decimal_nonneg: "0 \<le> decimal ds"
  unfolding decimal_def using decimal_step_mono[of 0 ds] by simp

lemma decimal_append: "decimal ds \<le> decimal (ds @ es)"
  unfolding decimal_def foldl_append
  by (rule decimal_step_mono) (rule decimal_nonneg[unfolded decimal_def])

lemma scan_zd_extend:
  assumes "scan_zd A' = Some v" and "0 \<le> v" and "c_str B' = c_str A' @ S"
  shows "\<exists>v'. scan_zd B' = Some v' \<and> nat v \<le> (if v' < 0 then 0 else nat v')"
proof -
  define s where "s = dropWhile isspace (c_str A')"
  define neg where "neg = (s \<noteq> [] \<and> hd s = CHR ''-'')"
  define s' where "s' = (if s \<noteq> [] \<and> (hd s = CHR ''-'' \<or> hd s = CHR ''+'') then tl s else s)"
  define ds where "ds = takeWhile isdigit s'"
  have A: "scan_zd A' = (if ds = [] then None else Some (if neg then - decimal ds else decimal ds))"
    unfolding scan_zd_def Let_def s_def neg_def s'_def ds_def by (rule refl)
  from assms(1) have dne: "ds \<noteq> []" and v: "v = (if neg then - decimal ds else decimal ds)"
    unfolding A by (auto split: if_splits)
  from dne have "s' \<noteq> []" unfolding ds_def by auto
  then have sne: "s \<noteq> []" unfolding s'_def by (auto split: if_splits)
  then have "\<not> isspace (hd s)" "hd s \<in> set (c_str A')"
    unfolding s_def
    by (metis hd_dropWhile, metis hd_in_set set_dropWhileD)
  then have dB: "dropWhile isspace (c_str B') = s @ S"
    unfolding assms(3) s_def by (simp add: dropWhile_append1)
  define sB where "sB = dropWhile isspace (c_str B')"
  define negB where "negB = (sB \<noteq> [] \<and> hd sB = CHR ''-'')"
  define sB' where
    "sB' = (if sB \<noteq> [] \<and> (hd sB = CHR ''-'' \<or> hd sB = CHR ''+'') then tl sB else sB)"
  define dsB where "dsB = takeWhile isdigit sB'"
  have B: "scan_zd B' = (if dsB = [] then None
                          else Some (if negB then - decimal dsB else decimal dsB))"
    unfolding scan_zd_def Let_def sB_def negB_def sB'_def dsB_def by (rule refl)
  have sB: "sB = s @ S" unfolding sB_def dB ..
  have negB: "negB = neg" unfolding negB_def neg_def sB using sne by simp
  have sB': "sB' = s' @ S" unfolding sB'_def s'_def sB using sne by simp
  have "\<exists>es. takeWhile isdigit (s' @ S) = takeWhile isdigit s' @ es"
  proof (cases "\<forall>x \<in> set s'. isdigit x")
    case True
    then have "takeWhile isdigit s' = s'" by (simp add: takeWhile_eq_all_conv)
    moreover from True have "takeWhile isdigit (s' @ S) = s' @ takeWhile isdigit S"
      by (simp add: takeWhile_append2)
    ultimately have "takeWhile isdigit (s' @ S) = takeWhile isdigit s' @ takeWhile isdigit S"
      by (simp only:)
    then show ?thesis by (rule exI)
  next
    case False
    then obtain x where "x \<in> set s'" "\<not> isdigit x" by blast
    then have "takeWhile isdigit (s' @ S) = takeWhile isdigit s'"
      by (rule takeWhile_append1)
    then show ?thesis by simp
  qed
  then obtain es where es: "dsB = ds @ es"
    unfolding dsB_def ds_def sB' by blast
  with dne have dBne: "dsB \<noteq> []" by simp
  let ?v' = "if neg then - decimal (ds @ es) else decimal (ds @ es)"
  have r: "scan_zd B' = Some ?v'"
    unfolding B negB es using dBne es by simp
  have "nat v \<le> (if ?v' < 0 then 0 else nat ?v')"
  proof (cases neg)
    case True
    with v assms(2) decimal_nonneg[of ds] show ?thesis by simp
  next
    case False
    with v decimal_append[of ds es] decimal_nonneg[of ds] show ?thesis by simp
  qed
  with r show ?thesis by blast
qed

lemma frame_body_in_bounds:
  assumes "frame_request buffer = Some n"
    and "strstr (buffer[n := NUL]) CRLFCRLF = Some off"
    and "0 \<le> get_content_length (buffer[n := NUL])"
  shows "off + 4 + nat (get_content_length (buffer[n := NUL])) \<le> n"
proof -
  from assms(1) obtain off0 where t0: "strstr buffer CRLFCRLF = Some off0"
    and n: "n = off0 + 4 + body_length buffer" and nl: "n \<le> length buffer"
    unfolding frame_request_unfold by (auto split: option.splits if_splits)
  show ?thesis
  proof (cases "n < length buffer")
    case False
    with nl have "buffer[n := NUL] = buffer" by (simp add: list_update_beyond)
    with assms(2,3) t0 n show ?thesis
      by (simp add: body_length_def)
  next
    case True
    define T where "T = c_str buffer"
    define P where "P = take n T"
    have cut: "c_str (buffer[n := NUL]) = P"
      unfolding P_def T_def by (rule c_str_cut[OF True])
    have T: "T = P @ drop n T" unfolding P_def by simp
    from t0 have fT: "find_sub T CRLFCRLF = Some off0"
      by (simp add: strstr_def T_def)
    from find_sub_Some[OF fT] n have "off0 + length CRLFCRLF \<le> length P"
      unfolding P_def by (simp add: length_CRLFCRLF)
    with fT T have "find_sub P CRLFCRLF = Some off0"
      by (metis find_sub_within)
    with assms(2) have off: "off = off0"
      by (simp add: strstr_def cut)
    from assms(3) obtain p v where
      p: "strcasestr (buffer[n := NUL]) ''Content-Length:'' = Some p"
      and sv: "scan_zd (drop (p + 15) (buffer[n := NUL])) = Some v"
      and v: "get_content_length (buffer[n := NUL]) = v"
      unfolding get_content_length_def by (auto split: option.splits)
    from p have fP: "find_sub (map tolower P) (map tolower ''Content-Length:'') = Some p"
      by (simp only: strcasestr_def cut)
    have "map tolower T = map tolower P @ map tolower (drop n T)"
      by (subst T) simp
    with find_sub_prefix[OF fP, of "map tolower (drop n T)"]
    have pT: "strcasestr buffer ''Content-Length:'' = Some p"
      by (simp only: strcasestr_def T_def[symmetric])
    from find_sub_Some[OF fP] have pl: "p + 15 \<le> length P" by simp
    then have plT: "p + 15 \<le> length T" unfolding P_def by simp
    have dP: "c_str (drop (p + 15) (buffer[n := NUL])) = drop (p + 15) P"
      using c_str_drop[of "p + 15" "buffer[n := NUL]"] pl by (simp add: cut)
    have dT: "c_str (drop (p + 15) buffer) = drop (p + 15) P @ drop n T"
    proof -
      have "c_str (drop (p + 15) buffer) = drop (p + 15) T"
        using c_str_drop[of "p + 15" buffer] plT by (simp add: T_def)
      also have "\<dots> = drop (p + 15) (P @ drop n T)" using T by simp
      also have "\<dots> = drop (p + 15) P @ drop n T" using pl by simp
      finally show ?thesis .
    qed
    from v assms(3) have v0: "0 \<le> v" by simp
    from scan_zd_extend[OF sv v0, of "drop (p + 15) buffer" "drop n T"] dP dT
    obtain v' where sv': "scan_zd (drop (p + 15) buffer) = Some v'"
      and le: "nat v \<le> (if v' < 0 then 0 else nat v')"
      by auto
    from pT sv' have "get_content_length buffer = v'"
      by (simp add: get_content_length_def)
    with le have "nat v \<le> body_length buffer"
      by (cases "v' < 0") (simp_all add: body_length_def)
    with off n v show ?thesis by simp
  qed
qed

section \<open>The Content-Length header line\<close>

lemma isdigit_cases:
  "isdigit c \<Longrightarrow> \<not> isspace c \<and> c \<noteq> NUL \<and> c \<noteq> CHR ''-'' \<and> c \<noteq> CHR ''+''"
  by (auto simp: isdigit_def isspace_def NUL_def)

lemma CR_not_digit: "\<not> isdigit (CHR 0x0D)"
  by (simp add: isdigit_def)

lemma blank_isspace: "blank c \<Longrightarrow> isspace c"
  by (auto simp: blank_def isspace_def)

lemma takeWhile_stop:
  "\<not> P c \<Longrightarrow> takeWhile P (x @ c # tail) = takeWhile P x"
  by (induction x) auto

lemma scan_zd_value:
  assumes v: "v \<noteq> []" "\<not> isspace (hd v)" "NUL \<notin> set v"
    and bl: "list_all isspace bl"
    and mem: "c_str mem = bl @ v @ c # tail"
    and c: "\<not> isdigit c"
  shows "scan_zd mem = scan_zd v"
proof -
  from v obtain a v' where av: "v = a # v'" "\<not> isspace a" by (cases v) auto
  from bl have "dropWhile isspace (bl @ v @ c # tail) = dropWhile isspace (v @ c # tail)"
    by (intro dropWhile_append2) (simp add: list_all_iff)
  with av have d1: "dropWhile isspace (c_str mem) = a # v' @ c # tail"
    by (simp add: mem)
  from v(3) have "c_str v = v" by (rule c_str_id)
  with av have d2: "dropWhile isspace (c_str v) = a # v'" by simp
  have t1: "takeWhile isdigit (v' @ c # tail) = takeWhile isdigit v'"
    using c by (rule takeWhile_stop[where P = isdigit])
  have t2: "takeWhile isdigit (a # v' @ c # tail) = takeWhile isdigit (a # v')"
    using takeWhile_stop[where P = isdigit, OF c, of "a # v'" tail] by simp
  show ?thesis
  proof (cases "a = CHR ''-'' \<or> a = CHR ''+''")
    case True
    then show ?thesis
      unfolding scan_zd_def d1 d2 Let_def by (auto simp: t1)
  next
    case False
    then show ?thesis
      unfolding scan_zd_def d1 d2 Let_def using t2 by auto
  qed
qed

lemma scan_zd_digits:
  assumes "v \<noteq> []" "list_all isdigit v"
  shows "scan_zd v = Some (decimal v)"
proof -
  from assms obtain a v' where av: "v = a # v'" "isdigit a" "list_all isdigit v'"
    by (cases v) auto
  from assms(2) isdigit_cases have "NUL \<notin> set v" by (auto simp: list_all_iff)
  then have cs: "c_str v = v" by (rule c_str_id)
  from av isdigit_cases[of a] have a: "\<not> isspace a" "a \<noteq> CHR ''-''" "a \<noteq> CHR ''+''" by blast+
  from assms(2) have tw: "takeWhile isdigit v = v"
    by (simp add: takeWhile_eq_all_conv list_all_iff)
  from a av have dw: "dropWhile isspace v = v" by simp
  from av have hd: "hd v = a" "v \<noteq> []" by simp_all
  from a hd have s': "(if v \<noteq> [] \<and> (hd v = CHR ''-'' \<or> hd v = CHR ''+'') then tl v else v) = v"
    by simp
  from a hd have n: "(v \<noteq> [] \<and> hd v = CHR ''-'') = False" by simp
  show ?thesis
    unfolding scan_zd_def cs dw Let_def s' tw n using assms(1) by simp
qed

lemma scan_zd_leading:
  assumes ds: "ds \<noteq> []" "list_all isdigit ds" and c: "\<not> isdigit c"
    and nn: "NUL \<notin> set (ds @ c # rest)"
  shows "scan_zd (ds @ c # rest) = Some (decimal ds)"
proof -
  from ds obtain a ds' where av: "ds = a # ds'" "isdigit a" by (cases ds) auto
  from nn have cs: "c_str (ds @ c # rest) = ds @ c # rest" by (rule c_str_id)
  from av isdigit_cases[of a] have a: "\<not> isspace a" "a \<noteq> CHR ''-''" "a \<noteq> CHR ''+''" by blast+
  from a av have dw: "dropWhile isspace (ds @ c # rest) = ds @ c # rest" by simp
  from av have hd: "hd (ds @ c # rest) = a" "ds @ c # rest \<noteq> []" by simp_all
  from a hd have s': "(if ds @ c # rest \<noteq> [] \<and> (hd (ds @ c # rest) = CHR ''-''
        \<or> hd (ds @ c # rest) = CHR ''+'') then tl (ds @ c # rest) else ds @ c # rest)
      = ds @ c # rest"
    by simp
  from a hd have n: "(ds @ c # rest \<noteq> [] \<and> hd (ds @ c # rest) = CHR ''-'') = False" by simp
  from ds(2) have "takeWhile isdigit ds = ds"
    by (simp add: takeWhile_eq_all_conv list_all_iff)
  with takeWhile_stop[where P = isdigit, OF c, of ds rest]
  have tw: "takeWhile isdigit (ds @ c # rest) = ds" by simp
  show ?thesis
    unfolding scan_zd_def cs dw Let_def s' tw n using ds(1) by simp
qed

lemma needle_lower: "map tolower ''Content-Length:'' = ''content-length:''"
  by (simp add: tolower_def)

lemma terminator_CR:
  assumes "terminator_at text off"
  shows "off < length text \<and> text ! off = CHR 0x0D"
proof -
  from assms have t: "take 4 (drop off text) = CRLFCRLF" by (simp add: terminator_at_def)
  then have ne: "drop off text \<noteq> []" by (auto simp: CRLFCRLF_def)
  then have l: "off < length text" by simp
  from t have "hd (take 4 (drop off text)) = CHR 0x0D" by (simp add: CRLFCRLF_def)
  with ne have "hd (drop off text) = CHR 0x0D" by (cases "drop off text") auto
  with l show ?thesis by (simp add: hd_drop_conv_nth)
qed

lemma terminator_length: "terminator_at text off \<Longrightarrow> off + 4 \<le> length text"
  unfolding find_sub_terminator[symmetric] using find_sub_Some[of _ CRLFCRLF off]
  by (simp add: length_CRLFCRLF)

lemma line_split:
  assumes t: "terminator_at text off" and p: "p + 15 \<le> off"
  shows "\<exists>tail. drop (p + 15) text =
           takeWhile blank (takeWhile (\<lambda>c. c \<noteq> CHR 0x0D) (drop (p + 15) text))
           @ dropWhile blank (takeWhile (\<lambda>c. c \<noteq> CHR 0x0D) (drop (p + 15) text))
           @ CHR 0x0D # tail"
proof -
  define t where "t = drop (p + 15) text"
  from terminator_CR[OF t] have off: "off < length text" "text ! off = CHR 0x0D" by blast+
  with p have "off - (p + 15) < length t" "t ! (off - (p + 15)) = CHR 0x0D"
    by (simp_all add: t_def)
  then have "CHR 0x0D \<in> set t" by (metis nth_mem)
  then have ne: "dropWhile (\<lambda>c. c \<noteq> CHR 0x0D) t \<noteq> []"
    by (auto simp: dropWhile_eq_Nil_conv)
  from hd_dropWhile[OF ne] have "hd (dropWhile (\<lambda>c. c \<noteq> CHR 0x0D) t) = CHR 0x0D" by simp
  with ne obtain tail where tl: "dropWhile (\<lambda>c. c \<noteq> CHR 0x0D) t = CHR 0x0D # tail"
    by (cases "dropWhile (\<lambda>c. c \<noteq> CHR 0x0D) t") auto
  define L where "L = takeWhile (\<lambda>c. c \<noteq> CHR 0x0D) t"
  have "t = L @ dropWhile (\<lambda>c. c \<noteq> CHR 0x0D) t"
    unfolding L_def by (rule takeWhile_dropWhile_id[symmetric])
  then have a: "t = L @ CHR 0x0D # tail" by (simp only: tl)
  have "L = takeWhile blank L @ dropWhile blank L"
    by (rule takeWhile_dropWhile_id[symmetric])
  with a have "t = (takeWhile blank L @ dropWhile blank L) @ CHR 0x0D # tail"
    by (simp only:)
  then have "t = takeWhile blank L @ dropWhile blank L @ CHR 0x0D # tail"
    by (simp only: append_assoc)
  then show ?thesis unfolding L_def t_def by (rule exI)
qed

lemma line_no_NUL:
  assumes "content_length_line (c_str buffer) off = Valued v"
  shows "NUL \<notin> set v"
proof -
  from assms obtain p where
    vdef: "v = dropWhile blank (takeWhile (\<lambda>c. c \<noteq> CHR 0x0D) (drop (p + 15) (c_str buffer)))"
    by (auto simp: content_length_line_def split: option.splits if_splits)
  have "set v \<subseteq> set (c_str buffer)"
  proof
    fix x
    assume "x \<in> set v"
    then have "x \<in> set (takeWhile (\<lambda>c. c \<noteq> CHR 0x0D) (drop (p + 15) (c_str buffer)))"
      unfolding vdef by (rule set_dropWhileD)
    then have "x \<in> set (drop (p + 15) (c_str buffer))"
      by (rule set_takeWhileD[THEN conjunct1])
    then show "x \<in> set (c_str buffer)" by (rule in_set_dropD)
  qed
  with c_str_no_NUL[of buffer] show ?thesis by blast
qed

lemma line_value:
  assumes t: "terminator_at (c_str buffer) off"
    and f: "content_length_line (c_str buffer) off = Valued v"
    and v: "v \<noteq> []" "\<not> isspace (hd v)"
  shows "get_content_length buffer = (case scan_zd v of None \<Rightarrow> - 1 | Some n \<Rightarrow> n)"
proof -
  from f obtain p where p: "find_sub (map tolower (c_str buffer)) ''content-length:'' = Some p"
    "p + 15 \<le> off"
    and vdef: "v = dropWhile blank (takeWhile (\<lambda>c. c \<noteq> CHR 0x0D) (drop (p + 15) (c_str buffer)))"
    by (auto simp: content_length_line_def split: option.splits if_splits)
  from p(1) have sc: "strcasestr buffer ''Content-Length:'' = Some p"
    unfolding strcasestr_def needle_lower .
  from line_split[OF t p(2)] obtain tail where
    sp: "drop (p + 15) (c_str buffer) =
           takeWhile blank (takeWhile (\<lambda>c. c \<noteq> CHR 0x0D) (drop (p + 15) (c_str buffer)))
           @ v @ CHR 0x0D # tail"
    unfolding vdef by blast
  from terminator_CR[OF t] p(2) have "p + 15 \<le> length (c_str buffer)" by simp
  then have cs: "c_str (drop (p + 15) buffer) = drop (p + 15) (c_str buffer)"
    by (rule c_str_drop)
  have "set v \<subseteq> set (c_str buffer)"
  proof
    fix x
    assume "x \<in> set v"
    then have "x \<in> set (takeWhile (\<lambda>c. c \<noteq> CHR 0x0D) (drop (p + 15) (c_str buffer)))"
      unfolding vdef by (rule set_dropWhileD)
    then have "x \<in> set (drop (p + 15) (c_str buffer))"
      by (rule set_takeWhileD[THEN conjunct1])
    then show "x \<in> set (c_str buffer)" by (rule in_set_dropD)
  qed
  with c_str_no_NUL[of buffer] have nn: "NUL \<notin> set v" by blast
  have bl: "list_all isspace
      (takeWhile blank (takeWhile (\<lambda>c. c \<noteq> CHR 0x0D) (drop (p + 15) (c_str buffer))))"
    unfolding list_all_iff
  proof
    fix x
    assume "x \<in> set (takeWhile blank
      (takeWhile (\<lambda>c. c \<noteq> CHR 0x0D) (drop (p + 15) (c_str buffer))))"
    then have "blank x" by (rule set_takeWhileD[THEN conjunct2])
    then show "isspace x" by (rule blank_isspace)
  qed
  have "scan_zd (drop (p + 15) buffer) = scan_zd v"
    using v nn bl _ CR_not_digit
  proof (rule scan_zd_value)
    show "c_str (drop (p + 15) buffer) =
      takeWhile blank (takeWhile (\<lambda>c. c \<noteq> CHR 0x0D) (drop (p + 15) (c_str buffer)))
           @ v @ CHR 0x0D # tail"
      unfolding cs by (rule sp)
  qed
  then show ?thesis
    unfolding get_content_length_def sc by simp
qed

lemma line_missing:
  assumes "content_length_line (c_str buffer) off = Missing"
  shows "get_content_length buffer = - 1"
proof -
  from assms have "find_sub (map tolower (c_str buffer)) ''content-length:'' = None"
    by (auto simp: content_length_line_def split: option.splits if_splits)
  then show ?thesis
    unfolding get_content_length_def strcasestr_def needle_lower by simp
qed

lemma line_leading_number:
  assumes t: "terminator_at (c_str buffer) off"
    and f: "content_length_line (c_str buffer) off = Valued (ds @ c # rest)"
    and ds: "ds \<noteq> []" "list_all isdigit ds" and c: "\<not> isdigit c"
  shows "body_length buffer = nat (decimal ds)"
proof -
  from ds isdigit_cases[of "hd ds"] have "\<not> isspace (hd (ds @ c # rest))"
    by (cases ds) auto
  from line_value[OF t f _ this] scan_zd_leading[OF ds c line_no_NUL[OF f]]
  have "get_content_length buffer = decimal ds" by simp
  with decimal_nonneg[of ds] show ?thesis by (simp add: body_length_def)
qed

lemma line_no_length:
  assumes t: "terminator_at (c_str buffer) off"
    and f: "content_length_line (c_str buffer) off = Valued v"
    and n: "no_length v"
  shows "get_content_length buffer < 0"
proof -
  from n have v: "v \<noteq> []" "\<not> isspace (hd v)" by (simp_all add: no_length_def)
  from line_value[OF t f v] n show ?thesis
    by (auto simp: no_length_def split: option.splits)
qed

lemma blank_not_digit: "blank c \<Longrightarrow> \<not> isdigit c"
  by (auto simp: blank_def isdigit_def)

lemma declared_body_length:
  assumes t: "terminator_at (c_str buffer) off"
    and d: "declared_length (c_str buffer) off = Some n"
  shows "body_length buffer = n"
proof (cases "content_length_line (c_str buffer) off")
  case Missing
  with d have "n = 0" by (simp add: declared_length_def)
  with line_missing[OF Missing] show ?thesis by (simp add: body_length_def)
next
  case Misplaced
  with d show ?thesis by (simp add: declared_length_def)
next
  case (Valued v)
  define ds where "ds = takeWhile isdigit v"
  define bs where "bs = dropWhile isdigit v"
  from Valued d have ds: "ds \<noteq> []" and bs: "list_all blank bs" and n: "n = nat (decimal ds)"
    by (auto simp: declared_length_def ds_def bs_def split: if_splits)
  have v: "v = ds @ bs" by (simp add: ds_def bs_def)
  have dd: "list_all isdigit ds"
    unfolding list_all_iff ds_def using set_takeWhileD by fastforce
  show ?thesis
  proof (cases bs)
    case Nil
    with v have "v = ds" by simp
    with ds dd have vv: "v \<noteq> []" "list_all isdigit v" by simp_all
    from vv isdigit_cases[of "hd v"] have "\<not> isspace (hd v)"
      by (cases v) auto
    from line_value[OF t Valued vv(1) this] scan_zd_digits[OF vv] \<open>v = ds\<close>
    have "get_content_length buffer = decimal ds" by simp
    with decimal_nonneg[of ds] n show ?thesis by (simp add: body_length_def)
  next
    case (Cons c r)
    with bs have "blank c" by simp
    then have c: "\<not> isdigit c" by (rule blank_not_digit)
    from Valued v Cons have f: "content_length_line (c_str buffer) off = Valued (ds @ c # r)"
      by simp
    from line_leading_number[OF t f ds dd c] n show ?thesis by simp
  qed
qed

lemma c_str_append_ex: "\<exists>S. c_str (a @ b) = c_str a @ S"
proof (cases "NUL \<in> set a")
  case True
  then have "c_str (a @ b) = c_str a"
    unfolding c_str_def by (intro takeWhile_append1[of NUL]) simp_all
  then show ?thesis by simp
next
  case False
  then have "c_str (a @ b) = a @ c_str b" by (rule c_str_append)
  with c_str_id[OF False] show ?thesis by simp
qed

lemma terminator_at_append: "terminator_at text off \<Longrightarrow> terminator_at (text @ S) off"
  unfolding find_sub_terminator[symmetric] by (rule find_sub_prefix)

lemma line_append:
  assumes t: "terminator_at text off" and f: "content_length_line text off = Valued v"
  shows "content_length_line (text @ S) off = Valued v"
proof -
  from f obtain p where p: "find_sub (map tolower text) ''content-length:'' = Some p"
    "2 \<le> p" "take 2 (drop (p - 2) text) = CRLF" "p + 15 \<le> off"
    and vdef: "v = dropWhile blank (takeWhile (\<lambda>c. c \<noteq> CHR 0x0D) (drop (p + 15) text))"
    by (auto simp: content_length_line_def split: option.splits if_splits)
  from find_sub_prefix[OF p(1), of "map tolower S"]
  have p': "find_sub (map tolower (text @ S)) ''content-length:'' = Some p" by simp
  from terminator_CR[OF t] p(4) have l: "p + 15 \<le> length text" by simp
  with p(2) have "2 \<le> length (drop (p - 2) text)" by simp
  with l p(2) have a: "take 2 (drop (p - 2) (text @ S)) = take 2 (drop (p - 2) text)"
    by simp
  from line_split[OF t p(4)] obtain tail where
    "drop (p + 15) text =
           takeWhile blank (takeWhile (\<lambda>c. c \<noteq> CHR 0x0D) (drop (p + 15) text))
           @ dropWhile blank (takeWhile (\<lambda>c. c \<noteq> CHR 0x0D) (drop (p + 15) text))
           @ CHR 0x0D # tail" by blast
  then have "CHR 0x0D \<in> set (drop (p + 15) text)"
    by (metis in_set_conv_decomp append_assoc)
  then have "takeWhile (\<lambda>c. c \<noteq> CHR 0x0D) (drop (p + 15) text @ S) =
      takeWhile (\<lambda>c. c \<noteq> CHR 0x0D) (drop (p + 15) text)"
    by (intro takeWhile_append1[of "CHR 0x0D"]) simp_all
  with l have b: "takeWhile (\<lambda>c. c \<noteq> CHR 0x0D) (drop (p + 15) (text @ S)) =
      takeWhile (\<lambda>c. c \<noteq> CHR 0x0D) (drop (p + 15) text)" by simp
  have "content_length_line (text @ S) off =
      (if 2 \<le> p \<and> take 2 (drop (p - 2) (text @ S)) = CRLF \<and> p + 15 \<le> off
       then Valued (dropWhile blank
              (takeWhile (\<lambda>c. c \<noteq> CHR 0x0D) (drop (p + 15) (text @ S))))
       else Misplaced)"
    by (simp only: content_length_line_def p' option.case)
  also have "\<dots> =
      (if 2 \<le> p \<and> take 2 (drop (p - 2) text) = CRLF \<and> p + 15 \<le> off
       then Valued (dropWhile blank (takeWhile (\<lambda>c. c \<noteq> CHR 0x0D) (drop (p + 15) text)))
       else Misplaced)"
    by (simp only: a b)
  also have "\<dots> = Valued v"
    using p(2,3,4) vdef by simp
  finally show ?thesis .
qed

lemma too_large_unframed:
  assumes t: "terminator_at (c_str buffer) off"
    and d: "declared_length (c_str buffer) off = Some n"
    and big: "BUFFER_SIZE \<le> off + 4 + n"
    and l: "length (buffer @ extra) < BUFFER_SIZE"
  shows "terminator_at (c_str (buffer @ extra)) off
    \<and> declared_length (c_str (buffer @ extra)) off = Some n
    \<and> frame_request (buffer @ extra) = None"
proof -
  from c_str_append_ex obtain S where S: "c_str (buffer @ extra) = c_str buffer @ S" by blast
  from terminator_at_append[OF t] have t': "terminator_at (c_str (buffer @ extra)) off"
    by (simp add: S)
  from terminator_length[OF t] c_str_length[of buffer] l big have "0 < n" by simp
  with d obtain v where v: "content_length_line (c_str buffer) off = Valued v"
    by (cases "content_length_line (c_str buffer) off") (auto simp: declared_length_def)
  from line_append[OF t v] have "content_length_line (c_str (buffer @ extra)) off = Valued v"
    by (simp add: S)
  with d v have d': "declared_length (c_str (buffer @ extra)) off = Some n"
    by (simp add: declared_length_def)
  from declared_body_length[OF t' d'] have "body_length (buffer @ extra) = n" .
  moreover from t' have "strstr (buffer @ extra) CRLFCRLF = Some off"
    by (simp add: strstr_def find_sub_terminator)
  ultimately have "frame_request (buffer @ extra) = None"
    using big l by (simp add: frame_request_unfold)
  with t' d' show ?thesis by blast
qed

lemma too_large_never_dispatched:
  "terminator_at (c_str buffer) off \<Longrightarrow> declared_length (c_str buffer) off = Some n \<Longrightarrow>
   BUFFER_SIZE \<le> off + 4 + n \<Longrightarrow> length buffer < BUFFER_SIZE \<Longrightarrow>
   snd (handle_client_loop evs buffer store out) = (store, out)"
proof (induction evs buffer store out rule: handle_client_loop.induct)
  case (1 buffer store out)
  show ?case by simp
next
  case (2 evs buffer store out)
  show ?case by simp
next
  case (3 chunk evs buffer store out)
  define got where "got = take (BUFFER_SIZE - length buffer - 1) chunk"
  show ?case
  proof (cases "got = []")
    case True
    then show ?thesis by (simp add: got_def)
  next
    case False
    from "3.prems"(4) have l: "length (buffer @ got) < BUFFER_SIZE"
      by (simp add: got_def)
    from too_large_unframed[OF "3.prems"(1,2,3) l]
    have t: "terminator_at (c_str (buffer @ got)) off"
      and d: "declared_length (c_str (buffer @ got)) off = Some n"
      and f: "frame_request (buffer @ got) = None" by blast+
    from f have hb: "handle_buffer (buffer @ got) store out = (buffer @ got, store, out)"
      by (subst handle_buffer.simps) simp
    from False have ne: "take (BUFFER_SIZE - length buffer - 1) chunk \<noteq> []"
      by (simp add: got_def)
    note hb' = hb[unfolded got_def]
    from "3.IH"[OF ne] t d "3.prems"(3) l
    have ih: "snd (handle_client_loop
          (if drop (BUFFER_SIZE - length buffer - 1) chunk = [] then evs
           else Data (drop (BUFFER_SIZE - length buffer - 1) chunk) # evs)
          (buffer @ take (BUFFER_SIZE - length buffer - 1) chunk) store out) = (store, out)"
      unfolding got_def hb' fst_conv snd_conv by blast
    have "handle_client_loop (Data chunk # evs) buffer store out =
        handle_client_loop
          (if drop (BUFFER_SIZE - length buffer - 1) chunk = [] then evs
           else Data (drop (BUFFER_SIZE - length buffer - 1) chunk) # evs)
          (buffer @ take (BUFFER_SIZE - length buffer - 1) chunk) store out"
      using ne by (simp only: handle_client_loop.simps if_False hb' fst_conv snd_conv)
    with ih show ?thesis by (simp only:)
  qed
qed

section \<open>Framing\<close>

text \<open>
  C1, as the code has it. The framer works on the text of the buffer up to its first
  NUL byte (the whole buffer when it has none), and it yields a request only when that
  text has a header terminator. Let the first terminator start at offset \<open>off\<close>, and
  let \<^verbatim>\<open>Content-Length:\<close> either occur nowhere in the text, so that the body length
  \<open>n\<close> is 0, or occur first as the name of a header line of the first header block,
  with a value of decimal digits that make the number \<open>n\<close> (blanks may follow
  them). Then the framer yields a request exactly when the buffer holds at least
  \<open>off + 4 + n\<close> bytes, and the request is the first \<open>off + 4 + n\<close> bytes. When
  nothing is yielded, the inner loop ends with buffer, store and responses as they
  were.
\<close>

theorem frame_request_ready:
  "(frame_request buffer \<noteq> None \<longrightarrow> (\<exists>off. terminator_at (c_str buffer) off))
   \<and> (terminator_at (c_str buffer) off \<and> declared_length (c_str buffer) off = Some n \<longrightarrow>
        frame_request buffer =
          (if off + 4 + n \<le> length buffer then Some (off + 4 + n) else None))
   \<and> (frame_request buffer = None \<longrightarrow>
        handle_buffer buffer store out = (buffer, store, out))"
proof (intro conjI impI)
  assume "frame_request buffer \<noteq> None"
  then show "\<exists>off. terminator_at (c_str buffer) off"
    by (auto simp: frame_request_unfold strstr_def find_sub_terminator[symmetric]
        split: option.splits)
next
  assume a: "terminator_at (c_str buffer) off \<and> declared_length (c_str buffer) off = Some n"
  then have "body_length buffer = n" using declared_body_length by blast
  with a show "frame_request buffer =
          (if off + 4 + n \<le> length buffer then Some (off + 4 + n) else None)"
    by (simp add: frame_request_unfold strstr_def find_sub_terminator[symmetric])
next
  assume "frame_request buffer = None"
  then show "handle_buffer buffer store out = (buffer, store, out)"
    by (subst handle_buffer.simps) simp
qed

text \<open>
  C1 on a PUT that declares five body bytes: with three of them buffered nothing is
  yielded or dispatched, with all five the request of 51 bytes is. A GET without the
  header is yielded at the end of its header block.
\<close>

theorem frame_request_ready_witness:
  "terminator_at (c_str ex_partial) 42 \<and> declared_length (c_str ex_partial) 42 = Some 5
   \<and> frame_request ex_partial = None
   \<and> handle_buffer ex_partial [empty_slot] [] = (ex_partial, [empty_slot], [])
   \<and> terminator_at (c_str ex_complete) 42 \<and> declared_length (c_str ex_complete) 42 = Some 5
   \<and> frame_request ex_complete = Some 51
   \<and> terminator_at (c_str ex_get) 23 \<and> declared_length (c_str ex_get) 23 = Some 0
   \<and> frame_request ex_get = Some 27"
proof -
  have "find_sub (c_str ex_partial) CRLFCRLF = Some 42" by code_simp
  then have t1: "terminator_at (c_str ex_partial) 42" by (simp only: find_sub_terminator)
  have "find_sub (c_str ex_complete) CRLFCRLF = Some 42" by code_simp
  then have t2: "terminator_at (c_str ex_complete) 42" by (simp only: find_sub_terminator)
  have "find_sub (c_str ex_get) CRLFCRLF = Some 23" by code_simp
  then have t3: "terminator_at (c_str ex_get) 23" by (simp only: find_sub_terminator)
  have d1: "declared_length (c_str ex_partial) 42 = Some 5" by code_simp
  have d2: "declared_length (c_str ex_complete) 42 = Some 5" by code_simp
  have d3: "declared_length (c_str ex_get) 23 = Some 0" by code_simp
  have l: "length ex_partial = 49" "length ex_complete = 51" "length ex_get = 27"
    by code_simp+
  from frame_request_ready[of ex_partial 42 5] t1 d1 have n: "frame_request ex_partial = None"
    by (simp add: l)
  with frame_request_ready[of ex_partial 42 5 "[empty_slot]" "[]"]
  have "handle_buffer ex_partial [empty_slot] [] = (ex_partial, [empty_slot], [])"
    by blast
  moreover from frame_request_ready[of ex_complete 42 5] t2 d2
  have "frame_request ex_complete = Some 51"
    by (simp add: l)
  moreover from frame_request_ready[of ex_get 23 0] t3 d3
  have "frame_request ex_get = Some 27"
    by (simp add: l)
  ultimately show ?thesis using t1 t2 t3 d1 d2 d3 n by blast
qed

text \<open>
  C1, as stated, fails on a buffer whose first byte is NUL: the buffer contains the
  terminator at offset 25 and all 29 bytes of a request without body, and the framer
  yields nothing, because \<^verbatim>\<open>strstr\<close> sees an empty string.
\<close>

theorem frame_request_stops_at_NUL:
  "terminator_at (NUL # ''GET /static/foo HTTP/1.1'' @ CRLFCRLF) 25
   \<and> body_length (NUL # ''GET /static/foo HTTP/1.1'' @ CRLFCRLF) = 0
   \<and> 25 + 4 + body_length (NUL # ''GET /static/foo HTTP/1.1'' @ CRLFCRLF)
       \<le> length (NUL # ''GET /static/foo HTTP/1.1'' @ CRLFCRLF)
   \<and> frame_request (NUL # ''GET /static/foo HTTP/1.1'' @ CRLFCRLF) = None"
proof -
  have "find_sub (NUL # ''GET /static/foo HTTP/1.1'' @ CRLFCRLF) CRLFCRLF = Some 25"
    by code_simp
  then have "terminator_at (NUL # ''GET /static/foo HTTP/1.1'' @ CRLFCRLF) 25"
    by (simp only: find_sub_terminator)
  moreover have "body_length (NUL # ''GET /static/foo HTTP/1.1'' @ CRLFCRLF) = 0"
    by code_simp
  moreover have "25 + 4 + body_length (NUL # ''GET /static/foo HTTP/1.1'' @ CRLFCRLF)
       \<le> length (NUL # ''GET /static/foo HTTP/1.1'' @ CRLFCRLF)"
    by code_simp
  moreover have "frame_request (NUL # ''GET /static/foo HTTP/1.1'' @ CRLFCRLF) = None"
    by code_simp
  ultimately show ?thesis by blast
qed

text \<open>
  C3, as the code has it, for a buffer whose first header terminator starts at \<open>off\<close>
  and whose first \<^verbatim>\<open>Content-Length:\<close> is the name of a header line of that header
  block. A value that gives no body length (no number at its start, or a negative one)
  is no framing error: the body length is taken as 0 and the request is yielded at the
  end of its header block. A value that starts with decimal digits followed by another
  byte is read as the number the digits make. A PUT on a dynamic path that reaches the
  routing with a value that gives no body length is answered 411 and the store is
  unchanged. A request whose value is a decimal number too large for the request to
  fit the buffer is never dispatched: whatever arrives after it, the connection ends
  with no response sent to it and the store as it was.
\<close>

theorem invalid_content_length:
  "(terminator_at (c_str buffer) off \<and> content_length_line (c_str buffer) off = Valued v
      \<and> no_length v \<longrightarrow>
      frame_request buffer = Some (off + 4))
   \<and> (terminator_at (c_str buffer) off
      \<and> content_length_line (c_str buffer) off = Valued (ds @ c # rest)
      \<and> ds \<noteq> [] \<and> list_all isdigit ds \<and> \<not> isdigit c \<longrightarrow>
      frame_request buffer =
        (if off + 4 + nat (decimal ds) \<le> length buffer
         then Some (off + 4 + nat (decimal ds)) else None))
   \<and> (routed request m pth \<and> strcasecmp_eq m ''PUT'' \<and> strncmp_eq pth ''/dynamic/'' 9
      \<and> terminator_at (c_str request) off
      \<and> content_length_line (c_str request) off = Valued v \<and> no_length v \<longrightarrow>
      process_request request store =
        (send_response 411 ''Length Required'' (Some ''Invalid Content-Length'') 20, store))
   \<and> (terminator_at (c_str buffer) off \<and> declared_length (c_str buffer) off = Some n
      \<and> BUFFER_SIZE \<le> off + 4 + n \<and> length buffer < BUFFER_SIZE \<longrightarrow>
      snd (handle_client_loop evs buffer store out) = (store, out))"
proof (intro conjI impI)
  assume a: "terminator_at (c_str buffer) off \<and> content_length_line (c_str buffer) off = Valued v
      \<and> no_length v"
  then have "get_content_length buffer < 0" using line_no_length by blast
  moreover from a terminator_length[of "c_str buffer" off] c_str_length[of buffer]
  have "off + 4 \<le> length buffer" by simp
  ultimately show "frame_request buffer = Some (off + 4)"
    using a
    by (simp add: frame_request_unfold body_length_def strstr_def find_sub_terminator[symmetric])
next
  assume a: "terminator_at (c_str buffer) off
      \<and> content_length_line (c_str buffer) off = Valued (ds @ c # rest)
      \<and> ds \<noteq> [] \<and> list_all isdigit ds \<and> \<not> isdigit c"
  then have "body_length buffer = nat (decimal ds)" using line_leading_number by blast
  with a show "frame_request buffer =
        (if off + 4 + nat (decimal ds) \<le> length buffer
         then Some (off + 4 + nat (decimal ds)) else None)"
    by (simp add: frame_request_unfold strstr_def find_sub_terminator[symmetric])
next
  assume a: "routed request m pth \<and> strcasecmp_eq m ''PUT'' \<and> strncmp_eq pth ''/dynamic/'' 9
      \<and> terminator_at (c_str request) off
      \<and> content_length_line (c_str request) off = Valued v \<and> no_length v"
  then have "get_content_length request < 0" using line_no_length by blast
  with a show "process_request request store =
        (send_response 411 ''Length Required'' (Some ''Invalid Content-Length'') 20, store)"
    using put_invalid_length by blast
next
  assume "terminator_at (c_str buffer) off \<and> declared_length (c_str buffer) off = Some n
      \<and> BUFFER_SIZE \<le> off + 4 + n \<and> length buffer < BUFFER_SIZE"
  then show "snd (handle_client_loop evs buffer store out) = (store, out)"
    using too_large_never_dispatched by blast
qed

text \<open>
  C3 on a PUT with Content-Length \<open>-5\<close>, framed at its 47 bytes and answered 411; on a
  PUT with Content-Length \<open>3abc\<close>, framed with a body of three bytes; and on a PUT with
  Content-Length 9000, after which more bytes arrive and nothing is dispatched.
\<close>

theorem invalid_content_length_witness:
  "terminator_at (c_str ex_put_negative) 43
   \<and> content_length_line (c_str ex_put_negative) 43 = Valued ''-5'' \<and> no_length ''-5''
   \<and> frame_request ex_put_negative = Some 47
   \<and> terminator_at (c_str ex_put_trailing) 45
   \<and> content_length_line (c_str ex_put_trailing) 45 = Valued (''3'' @ CHR ''a'' # ''bc'')
   \<and> ''3'' \<noteq> [] \<and> list_all isdigit ''3'' \<and> \<not> isdigit CHR ''a''
   \<and> frame_request ex_put_trailing = Some 52
   \<and> routed ex_put_negative ''PUT'' ''/dynamic/a'' \<and> strcasecmp_eq ''PUT'' ''PUT''
   \<and> strncmp_eq ''/dynamic/a'' ''/dynamic/'' 9
   \<and> process_request ex_put_negative [empty_slot] =
       (send_response 411 ''Length Required'' (Some ''Invalid Content-Length'') 20, [empty_slot])
   \<and> terminator_at (c_str ex_put_huge) 45 \<and> declared_length (c_str ex_put_huge) 45 = Some 9000
   \<and> BUFFER_SIZE \<le> 45 + 4 + 9000 \<and> length ex_put_huge < BUFFER_SIZE
   \<and> snd (handle_client_loop [Data ''abc''] ex_put_huge [empty_slot] []) = ([empty_slot], [])"
proof -
  have "find_sub (c_str ex_put_negative) CRLFCRLF = Some 43" by code_simp
  then have t1: "terminator_at (c_str ex_put_negative) 43" by (simp only: find_sub_terminator)
  have "find_sub (c_str ex_put_trailing) CRLFCRLF = Some 45" by code_simp
  then have t2: "terminator_at (c_str ex_put_trailing) 45" by (simp only: find_sub_terminator)
  have "find_sub (c_str ex_put_huge) CRLFCRLF = Some 45" by code_simp
  then have t3: "terminator_at (c_str ex_put_huge) 45" by (simp only: find_sub_terminator)
  have a: "content_length_line (c_str ex_put_negative) 43 = Valued ''-5''" "no_length ''-5''"
    by code_simp+
  have b: "content_length_line (c_str ex_put_trailing) 45 = Valued (''3'' @ CHR ''a'' # ''bc'')"
    "''3'' \<noteq> []" "list_all isdigit ''3''" "\<not> isdigit CHR ''a''" "length ex_put_trailing = 52"
    by code_simp+
  have c: "routed ex_put_negative ''PUT'' ''/dynamic/a''" "strcasecmp_eq ''PUT'' ''PUT''"
    "strncmp_eq ''/dynamic/a'' ''/dynamic/'' 9"
    by code_simp+
  have d: "declared_length (c_str ex_put_huge) 45 = Some 9000" "length ex_put_huge < BUFFER_SIZE"
    by code_simp+
  have e: "BUFFER_SIZE \<le> 45 + 4 + 9000" by (simp add: BUFFER_SIZE_def)
  have v3: "nat (decimal ''3'') = 3" by code_simp
  from invalid_content_length[of ex_put_negative 43 "''-5''"] t1 a
  have "frame_request ex_put_negative = Some 47"
    by simp
  moreover from invalid_content_length[of ex_put_trailing 45 _ "''3''" "CHR ''a''" "''bc''"] t2 b
  have "frame_request ex_put_trailing = Some 52"
    by (simp add: v3)
  moreover from invalid_content_length[of _ 43 "''-5''" _ _ _ ex_put_negative "''PUT''"
      "''/dynamic/a''" "[empty_slot]"] t1 a c
  have "process_request ex_put_negative [empty_slot] =
       (send_response 411 ''Length Required'' (Some ''Invalid Content-Length'') 20, [empty_slot])"
    by blast
  moreover from invalid_content_length[of ex_put_huge 45 _ _ _ _ _ _ _ "[empty_slot]" 9000
      "[Data ''abc'']" "[]"] t3 d e
  have "snd (handle_client_loop [Data ''abc''] ex_put_huge [empty_slot] []) = ([empty_slot], [])"
    by blast
  ultimately show ?thesis using t1 t2 t3 a b c d e by blast
qed

text \<open>
  C3, as stated, fails on three requests. A GET with Content-Length \<open>-5\<close> and a GET
  with Content-Length \<open>abc\<close> are each framed with body length 0 and answered 200. A
  PUT with Content-Length \<open>3abc\<close> is framed with a body of three bytes and answered
  201, the three bytes stored.
\<close>

theorem content_length_not_refused:
  "frame_request (''GET /static/foo HTTP/1.1'' @ CRLF @ ''Content-Length: -5'' @ CRLFCRLF)
     = Some (length (''GET /static/foo HTTP/1.1'' @ CRLF @ ''Content-Length: -5'' @ CRLFCRLF))
   \<and> fst (process_request
          (''GET /static/foo HTTP/1.1'' @ CRLF @ ''Content-Length: -5'' @ CRLFCRLF)
          dynamic_resources)
     = send_response 200 ''OK'' (Some ''Foo'') 3
   \<and> frame_request (''GET /static/foo HTTP/1.1'' @ CRLF @ ''Content-Length: abc'' @ CRLFCRLF)
     = Some (length (''GET /static/foo HTTP/1.1'' @ CRLF @ ''Content-Length: abc'' @ CRLFCRLF))
   \<and> fst (process_request
          (''GET /static/foo HTTP/1.1'' @ CRLF @ ''Content-Length: abc'' @ CRLFCRLF)
          dynamic_resources)
     = send_response 200 ''OK'' (Some ''Foo'') 3
   \<and> frame_request ex_put_trailing = Some (length ex_put_trailing)
   \<and> process_request ex_put_trailing [empty_slot]
     = (send_response 201 ''Created'' None 0,
        [\<lparr>path = ''/dynamic/a'', content = ''xyz'', in_use = True, content_length = 3\<rparr>])"
  by code_simp

section \<open>PUT then GET\<close>

text \<open>
  When the first \<^verbatim>\<open>Content-Length:\<close> of the PUT is the name of a header line of its
  header block and the value is the length of the body \<open>b\<close>, those bytes are \<open>b\<close>: the
  GET returns the body of the PUT, byte for byte.
\<close>

lemma put_then_get_declared:
  assumes "routed (hdr @ b) m pth" and "strcasecmp_eq m ''PUT''"
    and "strncmp_eq pth ''/dynamic/'' 9"
    and "status_code (fst (process_request (hdr @ b) store)) = 201
         \<or> status_code (fst (process_request (hdr @ b) store)) = 204"
    and "terminator_at (c_str (hdr @ b)) off" and "length hdr = off + 4"
    and "declared_length (c_str (hdr @ b)) off = Some (length b)"
    and "list_all (\<lambda>r. \<not> writes_to r pth) others"
    and "routed get gm pth" and "strcasecmp_eq gm ''GET''"
  shows "status_code (fst (process_request get
             (process_requests others (snd (process_request (hdr @ b) store))))) = 200
       \<and> body_sent (fst (process_request get
             (process_requests others (snd (process_request (hdr @ b) store))))) = b
       \<and> content_length_header (fst (process_request get
             (process_requests others (snd (process_request (hdr @ b) store))))) = length b"
proof -
  from declared_body_length[OF assms(5,7)] have bl: "body_length (hdr @ b) = length b" .
  have "\<not> get_content_length (hdr @ b) < 0"
  proof
    assume "get_content_length (hdr @ b) < 0"
    with put_invalid_length[OF assms(1,2,3), of store]
    have "status_code (fst (process_request (hdr @ b) store)) = 411"
      by (simp add: send_response_def)
    with assms(4) show False by simp
  qed
  with bl have n: "nat (get_content_length (hdr @ b)) = length b"
    by (simp add: body_length_def)
  from assms(5) have s: "strstr (hdr @ b) CRLFCRLF = Some off"
    by (simp add: strstr_def find_sub_terminator)
  from assms(6) have l: "off + 4 + nat (get_content_length (hdr @ b)) \<le> length (hdr @ b)"
    by (simp add: n)
  from assms(6) have tb: "take (length b) (drop (off + 4) (hdr @ b)) = b" by simp
  from put_then_get_stored[OF assms(1,2,3,4) s l assms(8,9,10)] show ?thesis
    unfolding n tb .
qed

text \<open>
  C6 on a PUT whose header block has the line \<^verbatim>\<open>X-Content-Length: 1\<close> before
  \<^verbatim>\<open>Content-Length: 3\<close>, with the body \<^verbatim>\<open>abc\<close>. \<^verbatim>\<open>get_content_length\<close> takes the first
  \<^verbatim>\<open>Content-Length:\<close> of the request, which here is inside the name of the other
  header. The PUT is answered 201 and stores one byte, and the GET that follows returns
  \<^verbatim>\<open>a\<close>, not \<^verbatim>\<open>abc\<close>. The framer reads the same length and cuts the request after 68
  of its 70 bytes.
\<close>

theorem put_then_get_short_body:
  "fst (process_request ex_put_shadowed dynamic_resources) = send_response 201 ''Created'' None 0
   \<and> fst (process_request ex_get (snd (process_request ex_put_shadowed dynamic_resources)))
     = send_response 200 ''OK'' (Some ''a'') 1
   \<and> body_sent (send_response 200 ''OK'' (Some ''a'') 1) = ''a''
   \<and> frame_request ex_put_shadowed = Some 68 \<and> length ex_put_shadowed = 70"
  by code_simp

section \<open>Pipelined requests\<close>

lemma handle_client_loop_fits:
  assumes "chunk \<noteq> []" and "length buffer + length chunk < BUFFER_SIZE"
  shows "handle_client_loop (Data chunk # evs) buffer store out =
           handle_client_loop evs
             (fst (handle_buffer (buffer @ chunk) store out))
             (fst (snd (handle_buffer (buffer @ chunk) store out)))
             (snd (snd (handle_buffer (buffer @ chunk) store out)))"
  using assms by simp

text \<open>
  C2 on two GET requests. Sent as two chunks, both are framed. Sent as one chunk, only
  the first is: \<^verbatim>\<open>buffer[total_request_length] = '\0'\<close> overwrites the first byte of the
  second request before \<^verbatim>\<open>memmove\<close> moves it to the front, and the buffer that is left
  starts with NUL.
\<close>

theorem pipelined_request_lost:
  "map fst (snd (snd (handle_client
      [Data ((''GET /static/foo HTTP/1.1'' @ CRLFCRLF) @ (''GET /static/bar HTTP/1.1'' @ CRLFCRLF))]
      dynamic_resources)))
     = [''GET /static/foo HTTP/1.1'' @ CRLFCRLF]
   \<and> map fst (snd (snd (handle_client
      [Data (''GET /static/foo HTTP/1.1'' @ CRLFCRLF), Data (''GET /static/bar HTTP/1.1'' @ CRLFCRLF)]
      dynamic_resources)))
     = [''GET /static/foo HTTP/1.1'' @ CRLFCRLF, ''GET /static/bar HTTP/1.1'' @ CRLFCRLF]
   \<and> fst (handle_buffer
        ((''GET /static/foo HTTP/1.1'' @ CRLFCRLF) @ (''GET /static/bar HTTP/1.1'' @ CRLFCRLF))
        dynamic_resources [])
     = NUL # ''ET /static/bar HTTP/1.1'' @ CRLFCRLF"
proof -
  let ?r1 = "''GET /static/foo HTTP/1.1'' @ CRLFCRLF"
  let ?r2 = "''GET /static/bar HTTP/1.1'' @ CRLFCRLF"
  have one: "handle_buffer ([] @ ?r1 @ ?r2) dynamic_resources [] =
      (NUL # ''ET /static/bar HTTP/1.1'' @ CRLFCRLF, dynamic_resources,
       [(?r1, send_response 200 ''OK'' (Some ''Foo'') 3)])"
    by code_simp
  have first: "handle_buffer ([] @ ?r1) dynamic_resources [] =
      ([], dynamic_resources, [(?r1, send_response 200 ''OK'' (Some ''Foo'') 3)])"
    by code_simp
  have second: "handle_buffer ([] @ ?r2) dynamic_resources
        [(?r1, send_response 200 ''OK'' (Some ''Foo'') 3)] =
      ([], dynamic_resources, [(?r1, send_response 200 ''OK'' (Some ''Foo'') 3),
                               (?r2, send_response 200 ''OK'' (Some ''Bar'') 3)])"
    by code_simp
  have a: "handle_client [Data (?r1 @ ?r2)] dynamic_resources =
      (0, dynamic_resources, [(?r1, send_response 200 ''OK'' (Some ''Foo'') 3)])"
  proof -
    have "handle_client_loop [Data (?r1 @ ?r2)] [] dynamic_resources [] =
        handle_client_loop []
          (fst (handle_buffer ([] @ ?r1 @ ?r2) dynamic_resources []))
          (fst (snd (handle_buffer ([] @ ?r1 @ ?r2) dynamic_resources [])))
          (snd (snd (handle_buffer ([] @ ?r1 @ ?r2) dynamic_resources [])))"
      by (rule handle_client_loop_fits) (simp_all add: CRLFCRLF_def BUFFER_SIZE_def)
    then show ?thesis
      by (simp only: handle_client_def one fst_conv snd_conv handle_client_loop.simps)
  qed
  have b: "handle_client [Data ?r1, Data ?r2] dynamic_resources =
      (0, dynamic_resources, [(?r1, send_response 200 ''OK'' (Some ''Foo'') 3),
                              (?r2, send_response 200 ''OK'' (Some ''Bar'') 3)])"
  proof -
    have "handle_client_loop [Data ?r1, Data ?r2] [] dynamic_resources [] =
        handle_client_loop [Data ?r2]
          (fst (handle_buffer ([] @ ?r1) dynamic_resources []))
          (fst (snd (handle_buffer ([] @ ?r1) dynamic_resources [])))
          (snd (snd (handle_buffer ([] @ ?r1) dynamic_resources [])))"
      by (rule handle_client_loop_fits) (simp_all add: CRLFCRLF_def BUFFER_SIZE_def)
    moreover have "handle_client_loop [Data ?r2] [] dynamic_resources
          [(?r1, send_response 200 ''OK'' (Some ''Foo'') 3)] =
        handle_client_loop []
          (fst (handle_buffer ([] @ ?r2) dynamic_resources
                  [(?r1, send_response 200 ''OK'' (Some ''Foo'') 3)]))
          (fst (snd (handle_buffer ([] @ ?r2) dynamic_resources
                  [(?r1, send_response 200 ''OK'' (Some ''Foo'') 3)])))
          (snd (snd (handle_buffer ([] @ ?r2) dynamic_resources
                  [(?r1, send_response 200 ''OK'' (Some ''Foo'') 3)])))"
      by (rule handle_client_loop_fits) (simp_all add: CRLFCRLF_def BUFFER_SIZE_def)
    ultimately show ?thesis
      by (simp only: handle_client_def first second fst_conv snd_conv handle_client_loop.simps)
  qed
  have c: "fst (handle_buffer (?r1 @ ?r2) dynamic_resources [])
      = NUL # ''ET /static/bar HTTP/1.1'' @ CRLFCRLF"
    using one by (simp only: append_Nil fst_conv)
  show ?thesis
    by (simp only: a b c fst_conv snd_conv list.map simp_thms)
qed

section \<open>Method names\<close>

declare count_loop.simps [simp del] validate_loop.simps [simp del]

lemma c_str_agree:
  "list_all2 same_text x y \<Longrightarrow> list_all2 same_text (c_str x) (c_str y)"
  unfolding c_str_def
  by (induction rule: list_all2_induct) (auto simp: same_text_def)

lemma starts_with_agree:
  "list_all2 same_text x y \<Longrightarrow> list_all isspace n \<Longrightarrow> starts_with x n = starts_with y n"
proof (induction x n arbitrary: y rule: starts_with.induct)
  case (1 s)
  then show ?case by simp
next
  case (2 d ds)
  then show ?case by simp
next
  case (3 c cs d ds)
  from "3.prems"(1) obtain b ys where y: "y = b # ys" and r: "same_text c b"
    and rest: "list_all2 same_text cs ys"
    by (cases y) auto
  from "3.prems"(2) have d: "isspace d" and ds: "list_all isspace ds" by simp_all
  from r d have "(c = d) = (b = d)" by (auto simp: same_text_def)
  with "3.IH"[OF rest ds] show ?case by (simp add: y)
qed

lemma find_sub_agree:
  "list_all2 same_text x y \<Longrightarrow> list_all isspace n \<Longrightarrow> find_sub x n = find_sub y n"
proof (induction rule: list_all2_induct)
  case Nil
  then show ?case by simp
next
  case (Cons a x b y)
  from Cons.hyps have "list_all2 same_text (a # x) (b # y)" by simp
  from starts_with_agree[OF this Cons.prems] Cons.IH[OF Cons.prems] show ?case
    by simp
qed

lemma strstr_agree:
  "list_all2 same_text x y \<Longrightarrow> list_all isspace n \<Longrightarrow> strstr x n = strstr y n"
  unfolding strstr_def by (rule find_sub_agree[OF c_str_agree])

lemma CRLF_space: "list_all isspace CRLF" "list_all isspace CRLFCRLF"
  by (simp_all add: CRLF_def CRLFCRLF_def isspace_def)

lemma count_loop_agree:
  assumes "list_all2 same_text x y"
  shows "count_loop x e p c = count_loop y e p c"
  using assms
proof (induction x e p c rule: count_loop.induct)
  case (1 request end_off ptr count)
  have s: "strstr (drop ptr request) CRLF = strstr (drop ptr y) CRLF"
    by (rule strstr_agree[OF list_all2_dropI[OF "1.prems"] CRLF_space(1)])
  show ?case
  proof (cases "ptr < end_off")
    case False
    then show ?thesis
      by (simp add: count_loop.simps[of request] count_loop.simps[of y])
  next
    case True
    show ?thesis
    proof (cases "strstr (drop ptr request) CRLF")
      case None
      with True s show ?thesis
        by (simp add: count_loop.simps[of request end_off ptr] count_loop.simps[of y end_off ptr])
    next
      case (Some k)
      from "1.IH"[OF True Some "1.prems"] True Some s show ?thesis
        by (simp add: count_loop.simps[of request end_off ptr] count_loop.simps[of y end_off ptr])
    qed
  qed
qed

lemma validate_loop_agree:
  assumes "list_all2 same_text x y"
  shows "validate_loop x e p = validate_loop y e p"
  using assms
proof (induction x e p rule: validate_loop.induct)
  case (1 request header_end line)
  have s: "strstr (drop line request) CRLF = strstr (drop line y) CRLF"
    by (rule strstr_agree[OF list_all2_dropI[OF "1.prems"] CRLF_space(1)])
  show ?case
  proof (cases "line < header_end")
    case False
    then show ?thesis
      by (simp add: validate_loop.simps[of request] validate_loop.simps[of y])
  next
    case True
    show ?thesis
    proof (cases "strstr (drop line request) CRLF")
      case None
      with True s show ?thesis
        by (simp add: validate_loop.simps[of request header_end line]
            validate_loop.simps[of y header_end line])
    next
      case (Some k)
      show ?thesis
      proof (cases "k > MAX_HEADER_LENGTH")
        case big: True
        with True Some s show ?thesis
          by (simp add: validate_loop.simps[of request header_end line]
              validate_loop.simps[of y header_end line])
      next
        case small: False
        from "1.IH"[OF True Some small "1.prems"] True Some s small show ?thesis
          by (simp add: validate_loop.simps[of request header_end line]
              validate_loop.simps[of y header_end line])
      qed
    qed
  qed
qed

lemma header_checks_agree:
  assumes "list_all2 same_text x y"
  shows "count_headers x = count_headers y" and "validate_headers x = validate_headers y"
    and "strstr x CRLFCRLF = strstr y CRLFCRLF"
proof -
  show t: "strstr x CRLFCRLF = strstr y CRLFCRLF"
    by (rule strstr_agree[OF assms CRLF_space(2)])
  have l: "strstr x CRLF = strstr y CRLF"
    by (rule strstr_agree[OF assms CRLF_space(1)])
  show "count_headers x = count_headers y"
    by (simp add: count_headers_def t count_loop_agree[OF assms] split: option.splits)
  show "validate_headers x = validate_headers y"
    by (simp add: validate_headers_def t l validate_loop_agree[OF assms] split: option.splits)
qed

lemma isspace_not_NUL: "isspace c \<Longrightarrow> c \<noteq> NUL"
  by (auto simp: isspace_def NUL_def)

lemma isspace_tolower:
  assumes "isspace c"
  shows "tolower c = c"
proof -
  from assms consider "c = CHR 0x20" | "c = CHR 0x09" | "c = CHR 0x0A" | "c = CHR 0x0B"
    | "c = CHR 0x0C" | "c = CHR 0x0D"
    unfolding isspace_def by auto
  then show ?thesis
    by cases (simp_all add: tolower_def)
qed

lemma method_bytes_same_text:
  assumes "method_bytes m" and "method_bytes m'" and "length m = length m'"
  shows "list_all2 same_text (pre @ m @ rest) (pre @ m' @ rest)"
proof -
  have "list_all2 same_text m m'"
    using assms by (auto simp: list_all2_conv_all_nth method_bytes_def list_all_length same_text_def)
  moreover have "list_all2 same_text pre pre" "list_all2 same_text rest rest"
    by (simp_all add: list_all2_refl same_text_def)
  ultimately show ?thesis
    by (intro list_all2_appendI)
qed

lemma c_str_method:
  assumes "list_all isspace pre" and "method_bytes m"
  shows "c_str (pre @ m @ rest) = pre @ m @ c_str rest"
proof -
  from assms have "NUL \<notin> set (pre @ m)"
    by (auto simp: list_all_iff method_bytes_def dest: isspace_not_NUL)
  from c_str_append[OF this, of rest] show ?thesis by simp
qed

lemma scan_s_method:
  assumes "list_all isspace pre" and "method_bytes m" and "m \<noteq> []"
  shows "scan_s 15 (c_str (pre @ m @ rest)) =
           Some (m @ take (15 - length m) (takeWhile (\<lambda>c. \<not> isspace c) (c_str rest)),
                 drop (length (take (15 - length m) (takeWhile (\<lambda>c. \<not> isspace c) (c_str rest))))
                   (c_str rest))"
proof -
  define t where "t = c_str rest"
  define tw where "tw = takeWhile (\<lambda>c. \<not> isspace c) t"
  from assms(2) have ns: "\<And>c. c \<in> set m \<Longrightarrow> \<not> isspace c" and len: "length m \<le> 15"
    by (auto simp: method_bytes_def list_all_iff)
  from assms(3) obtain a ms where m: "m = a # ms" by (cases m) auto
  with ns have a: "\<not> isspace a" by simp
  from assms(1) have "dropWhile isspace (pre @ m @ t) = dropWhile isspace (m @ t)"
    by (simp add: dropWhile_append list_all_iff)
  also have "\<dots> = m @ t" using a by (simp add: m)
  finally have d: "dropWhile isspace (pre @ m @ t) = m @ t" .
  have tk: "takeWhile (\<lambda>c. \<not> isspace c) (m @ t) = m @ tw"
    unfolding tw_def using ns by (simp add: takeWhile_append2)
  have t15: "take 15 (m @ tw) = m @ take (15 - length m) tw"
    using len by simp
  have ne: "m @ take (15 - length m) tw \<noteq> []" using assms(3) by simp
  have dr: "drop (length (m @ take (15 - length m) tw)) (m @ t)
              = drop (length (take (15 - length m) tw)) t"
    by simp
  have "scan_s 15 (pre @ m @ t) =
      Some (m @ take (15 - length m) tw, drop (length (take (15 - length m) tw)) t)"
    unfolding scan_s_def Let_def d tk t15 dr using ne by simp
  then show ?thesis
    unfolding c_str_method[OF assms(1,2)] t_def tw_def .
qed

lemma token_tail:
  "NUL \<notin> set (take n (takeWhile (\<lambda>c. \<not> isspace c) (c_str rest)))"
proof
  assume "NUL \<in> set (take n (takeWhile (\<lambda>c. \<not> isspace c) (c_str rest)))"
  then have "NUL \<in> set (takeWhile (\<lambda>c. \<not> isspace c) (c_str rest))"
    by (rule in_set_takeD)
  then have "NUL \<in> set (c_str rest)"
    by (rule set_takeWhileD[THEN conjunct1])
  with c_str_no_NUL[of rest] show False by blast
qed

lemma find_sub_skip_method:
  "\<forall>c \<in> set m. c \<notin> set n \<Longrightarrow> n \<noteq> [] \<Longrightarrow>
     find_sub (m @ t) n = map_option ((+) (length m)) (find_sub t n)"
proof (induction m)
  case Nil
  then show ?case by (simp add: option.map_ident)
next
  case (Cons c m)
  from Cons.prems obtain d ds where n: "n = d # ds" by (cases n) auto
  with Cons.prems have "c \<noteq> d" by auto
  then have "\<not> starts_with (c # m @ t) n" by (simp add: n)
  with Cons show ?case
    by (simp add: option.map_comp comp_def)
qed

lemma starts_with_not_extended:
  "\<not> starts_with p n \<Longrightarrow> m \<noteq> [] \<Longrightarrow> hd m \<notin> set n \<Longrightarrow> \<not> starts_with (p @ m @ t) n"
proof (induction p n rule: starts_with.induct)
  case (1 s)
  then show ?case by simp
next
  case (2 d ds)
  then show ?case by (cases m) auto
next
  case (3 c cs d ds)
  then show ?case by auto
qed

lemma find_sub_skip_pre:
  "find_sub pre n = None \<Longrightarrow> m \<noteq> [] \<Longrightarrow> hd m \<notin> set n \<Longrightarrow>
     find_sub (pre @ m @ t) n = map_option ((+) (length pre)) (find_sub (m @ t) n)"
proof (induction pre)
  case Nil
  then show ?case by (simp add: option.map_ident)
next
  case (Cons c pre)
  from Cons.prems(1) have ns: "\<not> starts_with (c # pre) n" and r: "find_sub pre n = None"
    by (auto split: if_splits)
  from starts_with_not_extended[OF ns Cons.prems(2,3), of t]
  have "\<not> starts_with (c # pre @ m @ t) n" by simp
  with Cons.IH[OF r Cons.prems(2,3)] show ?case
    by (simp add: option.map_comp comp_def)
qed

lemma terminator_after_method:
  assumes "list_all isspace pre" and "method_bytes m" and "m \<noteq> []"
    and "find_sub pre CRLFCRLF = None"
    and "strstr (pre @ m @ rest) CRLFCRLF = Some off"
  shows "length pre + length m \<le> off"
proof -
  from assms(2) have ns: "\<forall>c \<in> set m. \<not> isspace c"
    by (simp add: method_bytes_def list_all_iff)
  have sp: "\<forall>c \<in> set CRLFCRLF. isspace c"
    using CRLF_space(2) by (simp add: list_all_iff)
  from ns sp have dis: "\<forall>c \<in> set m. c \<notin> set CRLFCRLF" by blast
  with assms(3) have hd: "hd m \<notin> set CRLFCRLF" by (cases m) auto
  have ne: "CRLFCRLF \<noteq> []" by (simp add: CRLFCRLF_def)
  from assms(5) have "find_sub (pre @ m @ c_str rest) CRLFCRLF = Some off"
    by (simp add: strstr_def c_str_method[OF assms(1,2)])
  then have "map_option ((+) (length pre))
      (map_option ((+) (length m)) (find_sub (c_str rest) CRLFCRLF)) = Some off"
    by (simp only: find_sub_skip_pre[OF assms(4,3) hd] find_sub_skip_method[OF dis ne])
  then show ?thesis by auto
qed

lemma content_length_agree:
  assumes "list_all isspace pre" and "method_bytes m" and "method_bytes m'"
    and "map tolower m = map tolower m'"
  shows "get_content_length (pre @ m @ rest) = get_content_length (pre @ m' @ rest)"
proof -
  have len: "length m = length m'"
    using assms(4) by (rule map_eq_imp_length_eq)
  have low: "map tolower (c_str (pre @ m @ rest)) = map tolower (c_str (pre @ m' @ rest))"
    by (simp add: c_str_method[OF assms(1,2)] c_str_method[OF assms(1,3)] assms(4))
  then have pos: "strcasestr (pre @ m @ rest) ''Content-Length:''
      = strcasestr (pre @ m' @ rest) ''Content-Length:''"
    by (simp add: strcasestr_def)
  show ?thesis
  proof (cases "strcasestr (pre @ m @ rest) ''Content-Length:''")
    case None
    with pos show ?thesis by (simp add: get_content_length_def)
  next
    case (Some p)
    have needle: "map tolower ''Content-Length:'' = ''content-length:''"
      by (simp add: tolower_def)
    define S where "S = map tolower (pre @ m @ c_str rest)"
    from Some have f: "find_sub S ''content-length:'' = Some p"
      unfolding strcasestr_def c_str_method[OF assms(1,2)] needle S_def .
    have "length pre \<le> p"
    proof (rule ccontr)
      assume "\<not> length pre \<le> p"
      then have lt: "p < length pre" by simp
      have l15: "length ''content-length:'' = 15" by simp
      from find_sub_Some[OF f, unfolded l15]
      have b: "p + 15 \<le> length S" and e: "take 15 (drop p S) = ''content-length:''"
        by blast+
      from b have "take 15 (drop p S) ! 0 = S ! p" by simp
      with e have "S ! p = CHR ''c''" by simp
      with lt have "tolower (pre ! p) = CHR ''c''"
        by (simp add: S_def nth_append)
      moreover from lt assms(1) have sp: "isspace (pre ! p)"
        by (simp add: list_all_length)
      ultimately have "pre ! p = CHR ''c''"
        by (simp add: isspace_tolower)
      with sp show False by (simp add: isspace_def)
    qed
    moreover from assms(2) have "length m \<le> 15" by (simp add: method_bytes_def)
    ultimately have "length pre + length m \<le> p + 15" by simp
    then have "drop (p + 15) (pre @ m @ rest) = drop (p + 15) (pre @ m' @ rest)"
      using len by simp
    with Some pos show ?thesis
      by (simp add: get_content_length_def)
  qed
qed

lemma handle_put_agree:
  assumes "list_all isspace pre" and "find_sub pre CRLFCRLF = None"
    and "method_bytes m" and "method_bytes m'" and "map tolower m = map tolower m'"
    and "m \<noteq> []"
  shows "handle_put (pre @ m @ rest) pth ri av store = handle_put (pre @ m' @ rest) pth ri av store"
proof -
  have len: "length m = length m'"
    using assms(5) by (rule map_eq_imp_length_eq)
  with assms(6) have ne': "m' \<noteq> []" by auto
  note agree = method_bytes_same_text[OF assms(3,4) len, of pre rest]
  note t = header_checks_agree(3)[OF agree]
  note cl = content_length_agree[OF assms(1,3,4,5), of rest]
  show ?thesis
  proof (cases "strstr (pre @ m @ rest) CRLFCRLF")
    case None
    with t show ?thesis by (simp add: handle_put_def)
  next
    case (Some off)
    from terminator_after_method[OF assms(1,3,6,2) Some] have "length pre + length m \<le> off + 4"
      by simp
    then have body: "drop (off + 4) (pre @ m @ rest) = drop (off + 4) (pre @ m' @ rest)"
      using len by simp
    from Some t have t': "strstr (pre @ m' @ rest) CRLFCRLF = Some off" by simp
    show ?thesis
      unfolding handle_put_def Some t' cl[symmetric] option.case Let_def body ..
  qed
qed

lemma method_compare_agree:
  assumes "method_bytes m" and "method_bytes m'" and "map tolower m = map tolower m'"
    and "NUL \<notin> set tail"
  shows "strcasecmp_eq (m @ tail) name = strcasecmp_eq (m' @ tail) name"
proof -
  from assms(1,2,4) have n: "NUL \<notin> set (m @ tail)" "NUL \<notin> set (m' @ tail)"
    by (auto simp: method_bytes_def list_all_iff)
  have "c_str (m @ tail) = m @ tail" "c_str (m' @ tail) = m' @ tail"
    by (rule c_str_id[OF n(1)], rule c_str_id[OF n(2)])
  with assms(3) show ?thesis
    by (simp add: strcasecmp_eq_def)
qed

lemma handle_dynamic_agree:
  assumes "list_all isspace pre" and "find_sub pre CRLFCRLF = None"
    and "method_bytes m" and "method_bytes m'" and "map tolower m = map tolower m'"
    and "m \<noteq> []" and "NUL \<notin> set tail"
  shows "handle_dynamic (pre @ m @ rest) (m @ tail) pth store
           = handle_dynamic (pre @ m' @ rest) (m' @ tail) pth store"
  unfolding handle_dynamic_def
    method_compare_agree[OF assms(3,4,5,7)]
    handle_put_agree[OF assms(1,2,3,4,5,6)] ..

text \<open>
  C10, as the code has it. Take a request whose first token comes after white space
  without a header terminator in it (none at all in the usual case). Changing the
  letter case of bytes among the first 15 bytes of that token, which are all that
  \<^verbatim>\<open>%15s\<close> reads as the method (the whole token when it has at most 15 bytes), changes
  neither the response nor the store that \<^verbatim>\<open>process_request\<close> returns.
\<close>

theorem method_case_insensitive:
  assumes "list_all isspace pre" and "find_sub pre CRLFCRLF = None"
    and "method_bytes m" and "method_bytes m'" and "map tolower m = map tolower m'"
  shows "process_request (pre @ m @ rest) store = process_request (pre @ m' @ rest) store"
proof (cases "m = []")
  case True
  with assms(5) show ?thesis by simp
next
  case False
  have len: "length m = length m'"
    using assms(5) by (rule map_eq_imp_length_eq)
  with False have ne': "m' \<noteq> []" by auto
  define tail where
    "tail = take (15 - length m) (takeWhile (\<lambda>c. \<not> isspace c) (c_str rest))"
  define r1 where "r1 = drop (length tail) (c_str rest)"
  have tn: "NUL \<notin> set tail"
    unfolding tail_def by (rule token_tail)
  have s1: "scan_s 15 (c_str (pre @ m @ rest)) = Some (m @ tail, r1)"
    unfolding tail_def r1_def by (rule scan_s_method[OF assms(1,3) False])
  have s2: "scan_s 15 (c_str (pre @ m' @ rest)) = Some (m' @ tail, r1)"
    unfolding tail_def r1_def len by (rule scan_s_method[OF assms(1,4) ne'])
  note agree = method_bytes_same_text[OF assms(3,4) len, of pre rest]
  note hc = header_checks_agree(1,2)[OF agree]
  note mc = method_compare_agree[OF assms(3,4,5) tn]
  note hd = handle_dynamic_agree[OF assms(1,2,3,4,5) False tn, of rest]
  show ?thesis
  proof (cases "scan_s 255 r1")
    case None
    then show ?thesis
      by (simp add: process_request_def scan_request_line_def s1 s2)
  next
    case (Some pr)
    obtain pth r2 where pr: "pr = (pth, r2)" by (cases pr)
    show ?thesis
    proof (cases "scan_s 15 r2")
      case N3: None
      with Some pr show ?thesis
        by (simp add: process_request_def scan_request_line_def s1 s2)
    next
      case S3: (Some vr)
      obtain version r3 where vr: "vr = (version, r3)" by (cases vr)
      have l1: "scan_request_line (pre @ m @ rest) = Some (m @ tail, pth, version)"
        by (simp add: scan_request_line_def s1 Some pr S3 vr)
      have l2: "scan_request_line (pre @ m' @ rest) = Some (m' @ tail, pth, version)"
        by (simp add: scan_request_line_def s2 Some pr S3 vr)
      show ?thesis
        unfolding process_request_def l1 l2 option.case prod.case hc mc hd ..
    qed
  qed
qed

text \<open>
  C10 on a PUT after a blank line, with the method in upper and in lower case.
\<close>

theorem method_case_insensitive_witness:
  "list_all isspace CRLF \<and> find_sub CRLF CRLFCRLF = None
   \<and> method_bytes ''PUT'' \<and> method_bytes ''put'' \<and> map tolower ''PUT'' = map tolower ''put''
   \<and> process_request (CRLF @ ''PUT'' @ ex_put_rest) [empty_slot]
       = process_request (CRLF @ ''put'' @ ex_put_rest) [empty_slot]
   \<and> fst (process_request (CRLF @ ''put'' @ ex_put_rest) [empty_slot])
       = send_response 201 ''Created'' None 0"
proof -
  have h: "list_all isspace CRLF" "find_sub CRLF CRLFCRLF = None"
    "method_bytes ''PUT''" "method_bytes ''put''" "map tolower ''PUT'' = map tolower ''put''"
    by code_simp+
  have s: "fst (process_request (CRLF @ ''put'' @ ex_put_rest) [empty_slot])
       = send_response 201 ''Created'' None 0"
    by code_simp
  from method_case_insensitive[OF h, of ex_put_rest "[empty_slot]"] h s
  show ?thesis by blast
qed

text \<open>
  C10, as stated, fails on a first token of more than 15 bytes: \<^verbatim>\<open>%15s\<close> takes the
  first 15 as the method and \<^verbatim>\<open>%255s\<close> the rest as the path, which is compared as it
  is written, so \<^verbatim>\<open>GETGETGETGETGET/static/foo\<close> is answered 405 and its upper-case
  variant 404. It also fails on a request with the header terminator in front of the
  request line: the stored body then starts at the method token, and \<^verbatim>\<open>PUT\<close> and
  \<^verbatim>\<open>put\<close> leave different content in the slot.
\<close>

theorem method_case_beyond_token:
  "status_code (fst (process_request
       (''GETGETGETGETGET/static/foo HTTP/1.1'' @ CRLFCRLF) dynamic_resources)) = 405
   \<and> status_code (fst (process_request
       (''GETGETGETGETGET/STATIC/FOO HTTP/1.1'' @ CRLFCRLF) dynamic_resources)) = 404
   \<and> process_request (CRLFCRLF @ ''PUT /dynamic/a HTTP/1.1 Content-Length:42 '') [empty_slot]
     = (send_response 201 ''Created'' None 0,
        [\<lparr>path = ''/dynamic/a'', content = ''PUT /dynamic/a HTTP/1.1 Content-Length:42 '',
          in_use = True, content_length = 42\<rparr>])
   \<and> process_request (CRLFCRLF @ ''put /dynamic/a HTTP/1.1 Content-Length:42 '') [empty_slot]
     = (send_response 201 ''Created'' None 0,
        [\<lparr>path = ''/dynamic/a'', content = ''put /dynamic/a HTTP/1.1 Content-Length:42 '',
          in_use = True, content_length = 42\<rparr>])"
  by code_simp

section \<open>Responses\<close>

lemma slots_readable_update:
  assumes "slots_readable store" and "content_length new \<le> length (content new)"
  shows "slots_readable (store[k := new])"
proof -
  have "set (store[k := new]) \<subseteq> insert new (set store)"
    by (rule set_update_subset_insert)
  with assms show ?thesis
    unfolding slots_readable_def list_all_iff by blast
qed

lemma handle_put_readable:
  assumes "slots_readable store"
    and "\<And>off. strstr request CRLFCRLF = Some off \<Longrightarrow> 0 \<le> get_content_length request
           \<Longrightarrow> off + 4 + nat (get_content_length request) \<le> length request"
  shows "slots_readable (snd (handle_put request pth ri av store))"
proof (cases "strstr request CRLFCRLF")
  case None
  with assms(1) show ?thesis by (simp add: handle_put_def)
next
  case (Some off)
  show ?thesis
  proof (cases "get_content_length request < 0 \<or> int BUFFER_SIZE \<le> get_content_length request")
    case True
    with assms(1) Some show ?thesis by (auto simp: handle_put_def Let_def)
  next
    case False
    then have "0 \<le> get_content_length request" by simp
    from assms(2)[OF Some this]
    have len: "nat (get_content_length request)
        \<le> length (take (nat (get_content_length request)) (drop (off + 4) request))"
      by simp
    show ?thesis
      using False assms(1) len
      by (auto simp: handle_put_def Some Let_def split: option.splits
          intro!: slots_readable_update)
  qed
qed

lemma process_request_readable:
  assumes "slots_readable store"
    and "\<And>off. strstr request CRLFCRLF = Some off \<Longrightarrow> 0 \<le> get_content_length request
           \<Longrightarrow> off + 4 + nat (get_content_length request) \<le> length request"
  shows "slots_readable (snd (process_request request store))"
proof -
  have d: "slots_readable (snd (handle_dynamic request m pth store))" for m pth
    using assms(1) handle_put_readable[OF assms]
    by (auto simp: handle_dynamic_def split: option.splits prod.splits
        intro!: slots_readable_update)
  show ?thesis
    using assms(1) d
    by (auto simp: process_request_def split: option.splits)
qed

lemma process_request_length_sent:
  assumes "slots_readable store"
  shows "content_length_header (fst (process_request request store)) =
           length (body_sent (fst (process_request request store)))"
proof -
  have st: "s_content_length r \<le> length (s_content r)"
    if "find_static static_resources pth = Some r" for pth r
    using that by (auto simp: static_resources_def split: if_splits)
  have dyn: "content_length (store ! i) \<le> length (content (store ! i))"
    if "scan_slots store pth 0 None = (Some i, a)" for pth i a
    using scan_slots_found[of store pth 0 None i] that assms
    by (simp add: slots_readable_def list_all_length)
  show ?thesis
    by (auto simp: process_request_def handle_dynamic_def handle_put_def send_response_def Let_def
        split: option.splits prod.splits dest: st dyn)
qed

lemma handle_buffer_sound:
  "slots_readable store \<Longrightarrow> list_all well_sized out \<Longrightarrow>
     slots_readable (fst (snd (handle_buffer buffer store out)))
     \<and> list_all well_sized (snd (snd (handle_buffer buffer store out)))"
proof (induction buffer store out rule: handle_buffer.induct)
  case (1 buffer store out)
  show ?case
  proof (cases "frame_request buffer")
    case None
    with "1.prems" show ?thesis
      by (subst (1 2) handle_buffer.simps) simp
  next
    case (Some n)
    let ?request = "buffer[n := NUL]"
    from frame_body_in_bounds[OF Some] Some
    have "\<And>off. strstr ?request CRLFCRLF = Some off \<Longrightarrow> 0 \<le> get_content_length ?request
           \<Longrightarrow> off + 4 + nat (get_content_length ?request) \<le> length ?request"
      by (fastforce simp: frame_request_unfold split: option.splits if_splits)
    from process_request_readable[OF "1.prems"(1) this]
    have r: "slots_readable (snd (process_request ?request store))" .
    from process_request_length_sent[OF "1.prems"(1), of ?request]
    have "well_sized (c_str ?request, fst (process_request ?request store))"
      by (simp add: well_sized_def)
    with "1.prems"(2)
    have w: "list_all well_sized (out @ [(c_str ?request, fst (process_request ?request store))])"
      by simp
    from "1.IH"[OF Some r w] Some show ?thesis
      by (subst (1 2) handle_buffer.simps) simp
  qed
qed

lemma handle_client_loop_sound:
  "slots_readable store \<Longrightarrow> list_all well_sized out \<Longrightarrow>
     slots_readable (fst (snd (handle_client_loop evs buffer store out)))
     \<and> list_all well_sized (snd (snd (handle_client_loop evs buffer store out)))"
proof (induction evs buffer store out rule: handle_client_loop.induct)
  case (1 buffer store out)
  then show ?case by simp
next
  case (2 evs buffer store out)
  then show ?case by simp
next
  case (3 chunk evs buffer store out)
  show ?case
  proof (cases "take (BUFFER_SIZE - length buffer - 1) chunk = []")
    case True
    with "3.prems" show ?thesis by simp
  next
    case False
    from handle_buffer_sound[OF "3.prems",
        of "buffer @ take (BUFFER_SIZE - length buffer - 1) chunk"]
    have "slots_readable (fst (snd (handle_buffer
              (buffer @ take (BUFFER_SIZE - length buffer - 1) chunk) store out)))"
      and "list_all well_sized (snd (snd (handle_buffer
              (buffer @ take (BUFFER_SIZE - length buffer - 1) chunk) store out)))"
      by blast+
    from "3.IH"[OF False this] False show ?thesis
      by simp
  qed
qed

text \<open>
  \<^verbatim>\<open>send_response\<close> writes its \<^verbatim>\<open>content_length\<close> argument into the header and sends
  that many bytes from the body pointer. On every connection, from a store whose slots
  are readable (the initial table is one), each response that \<^verbatim>\<open>handle_client\<close> emits,
  error responses included, announces in \<open>Content-Length\<close> the number of body bytes
  sent after the blank line, and the store is left readable for the next connection.
\<close>

lemma response_length_is_bytes_sent:
  assumes "slots_readable store"
  shows "list_all well_sized (snd (snd (handle_client evs store)))
       \<and> slots_readable (fst (snd (handle_client evs store)))"
  using handle_client_loop_sound[OF assms, of "[]" evs "[]"]
  by (simp add: handle_client_def)

text \<open>
  C8 on the 400 response to a request line of one token. The caller passes 21 as the
  length of the 22-byte text \<^verbatim>\<open>Invalid Request Format\<close>, so the response announces 21
  bytes and carries the text without its last byte: the number in the header is the
  caller's, not the length of the body handed over.
\<close>

theorem response_length_not_measured:
  "process_request (''GET'' @ CRLFCRLF) dynamic_resources =
     (send_response 400 ''Bad Request'' (Some ''Invalid Request Format'') 21, dynamic_resources)
   \<and> content_length_header (send_response 400 ''Bad Request'' (Some ''Invalid Request Format'') 21)
       \<noteq> length ''Invalid Request Format''
   \<and> body_sent (send_response 400 ''Bad Request'' (Some ''Invalid Request Format'') 21)
       = ''Invalid Request Forma''"
  by code_simp

section \<open>The request line\<close>

text \<open>
  C9 on a request line of two tokens. \<^verbatim>\<open>sscanf\<close> reads its three tokens across line
  ends, so the name of the first header becomes the version and the request is served:
  the answer is 200, not 400.
\<close>

theorem two_token_request_line_served:
  "status_code (fst (process_request (''GET /static/foo'' @ CRLF @ ''Host: x'' @ CRLFCRLF)
     dynamic_resources)) = 200"
  by code_simp

end
